theory Spec2Isabelle
  imports Main "HOL-Library.Word"
begin

unbundle bit_operations_syntax

section \<open>Object nodes and the heap\<close>

text \<open>
  The verified sources are \<^verbatim>\<open>cChainedHashTable.c\<close> (the chained hash index) and
  \<^verbatim>\<open>SLRU.c\<close> (the segmented LRU policy). Object nodes are C structs reached through
  pointers; a pointer is an address or \<^verbatim>\<open>NULL\<close> (\<open>None\<close>), and the heap maps every
  address to the struct stored there. The hash index only reads and writes the fields
  \<^verbatim>\<open>obj_id\<close>, \<^verbatim>\<open>hash_next\<close> and the \<^verbatim>\<open>in_cache\<close> flag; the policy reads
  \<^verbatim>\<open>obj_id\<close> and \<^verbatim>\<open>obj_size\<close>. The field \<open>expired\<close> is the boolean signal by which
  an LRU tier reports an object as expired; it stands for the expiry time of the struct,
  which only the tier's lookup reads.

  Sizes are byte counts. Their C integer types are declared in headers that are not
  among the verified sources, so they are natural numbers here; the object id is the
  64-bit unsigned integer of the data model, and the object counter of the hash table
  is a 64-bit word whose increment wraps.
\<close>

type_synonym obj_id_t = "64 word"
type_synonym addr = nat

record cache_obj_t =
  obj_id :: obj_id_t
  obj_size :: nat
  in_cache :: bool
  hash_next :: "addr option"
  expired :: bool

type_synonym heap = "addr \<Rightarrow> cache_obj_t"

text \<open>
  Modelled from the spec: \<^verbatim>\<open>cache_obj_set_in_cache\<close> is declared outside the verified
  sources; the data model has \<^verbatim>\<open>in_cache\<close> as a boolean field of the node, which the
  helper assigns.
\<close>

definition cache_obj_set_in_cache :: "heap \<Rightarrow> addr \<Rightarrow> bool \<Rightarrow> heap" where
  "cache_obj_set_in_cache h a v = h(a := (h a)\<lparr>in_cache := v\<rparr>)"

section \<open>The chained hash table\<close>

text \<open>
  \<^verbatim>\<open>ptr_table\<close> is the array of chain heads, indexed by a bucket id. Every index the
  code computes is masked with \<^verbatim>\<open>hashmask(hashpower)\<close>, so the table is a function from
  bucket ids to head pointers. The reader/writer locks serialise whole operations and
  have no effect on a single thread; each operation is modelled as its critical section.
\<close>

record hashtable_t =
  ptr_table :: "64 word \<Rightarrow> addr option"
  hashpower :: nat
  n_obj :: "64 word"

text \<open>
  Modelled from the spec: the macros \<^verbatim>\<open>hashsize\<close> and \<^verbatim>\<open>hashmask\<close> are defined in a
  header outside the verified sources; the data model gives
  \<^verbatim>\<open>n_buckets = 1 << hashpower\<close>, and the mask selects a bucket index below it.
\<close>

definition hashsize :: "nat \<Rightarrow> 64 word" where
  "hashsize n = push_bit n 1"

definition hashmask :: "nat \<Rightarrow> 64 word" where
  "hashmask n = hashsize n - 1"

text \<open>
  A \<^verbatim>\<open>cache_obj_t **\<close> points either at a bucket's head cell or at the
  \<^verbatim>\<open>hash_next\<close> field of a node.
\<close>

datatype cell = Bucket "64 word" | Next_of addr

fun deref :: "heap \<Rightarrow> hashtable_t \<Rightarrow> cell \<Rightarrow> addr option" where
  "deref h ht (Bucket b) = ptr_table ht b"
| "deref h ht (Next_of a) = hash_next (h a)"

fun assign :: "heap \<Rightarrow> hashtable_t \<Rightarrow> cell \<Rightarrow> addr option \<Rightarrow> heap \<times> hashtable_t" where
  "assign h ht (Bucket b) v = (h, ht\<lparr>ptr_table := (ptr_table ht)(b := v)\<rparr>)"
| "assign h ht (Next_of a) v = (h(a := (h a)\<lparr>hash_next := v\<rparr>), ht)"

text \<open>
  The loop of \<^verbatim>\<open>find_pointer_locked\<close>. On a cyclic chain that does not hold the id the
  C loop never ends: the result \<open>None\<close> stands for a walk that does not return.
\<close>

partial_function (option) walk :: "heap \<Rightarrow> hashtable_t \<Rightarrow> obj_id_t \<Rightarrow> cell \<Rightarrow> cell option" where
  "walk h ht oid ptr =
     (case deref h ht ptr of
        None \<Rightarrow> Some ptr
      | Some a \<Rightarrow> if oid \<noteq> obj_id (h a) then walk h ht oid (Next_of a) else Some ptr)"

definition find_pointer_locked :: "heap \<Rightarrow> hashtable_t \<Rightarrow> 64 word \<Rightarrow> obj_id_t \<Rightarrow> cell option" where
  "find_pointer_locked h ht bucket_id oid = walk h ht oid (Bucket bucket_id)"

text \<open>
  The hash function \<^verbatim>\<open>get_hash_value_int_64\<close> is not among the verified sources; it
  is the parameter \<open>hashf\<close> of every operation.
\<close>

definition bucket_of :: "(obj_id_t \<Rightarrow> 64 word) \<Rightarrow> hashtable_t \<Rightarrow> obj_id_t \<Rightarrow> 64 word" where
  "bucket_of hashf ht oid = hashf oid AND hashmask (hashpower ht)"

definition concurrent_chained_hashtable_find_obj_id ::
  "(obj_id_t \<Rightarrow> 64 word) \<Rightarrow> heap \<Rightarrow> hashtable_t \<Rightarrow> obj_id_t \<Rightarrow> addr option option" where
  "concurrent_chained_hashtable_find_obj_id hashf h ht oid =
     (case find_pointer_locked h ht (bucket_of hashf ht oid) oid of
        None \<Rightarrow> None
      | Some ptr \<Rightarrow> Some (deref h ht ptr))"

definition concurrent_chained_hashtable_insert_obj ::
  "(obj_id_t \<Rightarrow> 64 word) \<Rightarrow> heap \<Rightarrow> hashtable_t \<Rightarrow> addr \<Rightarrow>
     (addr option \<times> heap \<times> hashtable_t) option" where
  "concurrent_chained_hashtable_insert_obj hashf h ht cache_obj =
     (case find_pointer_locked h ht (bucket_of hashf ht (obj_id (h cache_obj))) (obj_id (h cache_obj)) of
        None \<Rightarrow> None
      | Some ptr \<Rightarrow>
          let old = deref h ht ptr;
              h1 = h(cache_obj := (h cache_obj)
                     \<lparr>hash_next := (case old of None \<Rightarrow> None | Some ob \<Rightarrow> hash_next (h ob))\<rparr>);
              h2 = cache_obj_set_in_cache h1 cache_obj False;
              (h3, ht3) = assign h2 ht ptr (Some cache_obj)
          in (case old of
                Some ob \<Rightarrow> Some (old, cache_obj_set_in_cache h3 ob False, ht3)
              | None \<Rightarrow> Some (old, h3, ht3\<lparr>n_obj := n_obj ht3 + 1\<rparr>)))"

definition concurrent_chained_hashtable_delete_obj_id ::
  "(obj_id_t \<Rightarrow> 64 word) \<Rightarrow> heap \<Rightarrow> hashtable_t \<Rightarrow> obj_id_t \<Rightarrow>
     (addr option \<times> heap \<times> hashtable_t) option" where
  "concurrent_chained_hashtable_delete_obj_id hashf h ht oid =
     (case find_pointer_locked h ht (bucket_of hashf ht oid) oid of
        None \<Rightarrow> None
      | Some ptr \<Rightarrow>
          (case deref h ht ptr of
             None \<Rightarrow> Some (None, h, ht)
           | Some r \<Rightarrow>
               let h1 = cache_obj_set_in_cache h r False;
                   (h2, ht2) = assign h1 ht ptr (hash_next (h1 r))
               in Some (Some r, h2, ht2\<lparr>n_obj := n_obj ht2 - 1\<rparr>)))"

text \<open>
  \<^verbatim>\<open>next_rand\<close> is not among the verified sources: the values it returns on
  successive calls are the sequence \<open>rnd\<close>, and \<open>n\<close> counts the calls made so far.
  The loop has no exit other than a non-empty bucket; \<open>None\<close> stands for a call that
  does not return, \<open>Some p\<close> for the returned pointer \<open>p\<close>.
\<close>

partial_function (option) rand_probe ::
  "(nat \<Rightarrow> 64 word) \<Rightarrow> hashtable_t \<Rightarrow> nat \<Rightarrow> 64 word \<Rightarrow> addr option option" where
  "rand_probe rnd ht n pos =
     (if ptr_table ht pos = None
      then rand_probe rnd ht (Suc n) (rnd n AND hashmask (hashpower ht))
      else Some (ptr_table ht pos))"

definition concurrent_chained_hashtable_rand_obj ::
  "(nat \<Rightarrow> 64 word) \<Rightarrow> hashtable_t \<Rightarrow> addr option option" where
  "concurrent_chained_hashtable_rand_obj rnd ht =
     rand_probe rnd ht 1 (rnd 0 AND hashmask (hashpower ht))"

subsection \<open>Chains as lists of addresses\<close>

text \<open>
  \<open>chain h p as\<close>: following \<^verbatim>\<open>hash_next\<close> from pointer \<open>p\<close> visits exactly the
  addresses \<open>as\<close> and then reaches \<^verbatim>\<open>NULL\<close>.
\<close>

fun chain :: "heap \<Rightarrow> addr option \<Rightarrow> addr list \<Rightarrow> bool" where
  "chain h p [] = (p = None)"
| "chain h p (a # as) = (p = Some a \<and> chain h (hash_next (h a)) as)"

text \<open>
  \<open>path h p as q\<close>: following \<^verbatim>\<open>hash_next\<close> from \<open>p\<close> visits the addresses \<open>as\<close>
  and arrives at the pointer \<open>q\<close>. \<open>stop_cell\<close> is the cell at which the walk of
  \<^verbatim>\<open>find_pointer_locked\<close> stops on a chain.
\<close>

fun path :: "heap \<Rightarrow> addr option \<Rightarrow> addr list \<Rightarrow> addr option \<Rightarrow> bool" where
  "path h p [] q = (p = q)"
| "path h p (a # as) q = (p = Some a \<and> path h (hash_next (h a)) as q)"

fun stop_cell :: "heap \<Rightarrow> obj_id_t \<Rightarrow> cell \<Rightarrow> addr list \<Rightarrow> cell" where
  "stop_cell h oid c [] = c"
| "stop_cell h oid c (a # as) = (if oid \<noteq> obj_id (h a) then stop_cell h oid (Next_of a) as else c)"

subsection \<open>Sequences of hash-table operations\<close>

text \<open>
  A run of find, insert and delete calls on one table. Next to the final heap and table
  it returns the nodes the calls handled: every inserted node, every node an insert
  replaced and every node a delete removed.
\<close>

datatype ht_op = Op_find obj_id_t | Op_insert addr | Op_delete obj_id_t

fun run_ops :: "(obj_id_t \<Rightarrow> 64 word) \<Rightarrow> ht_op list \<Rightarrow> heap \<Rightarrow> hashtable_t \<Rightarrow>
    (heap \<times> hashtable_t \<times> addr list) option" where
  "run_ops hashf [] h ht = Some (h, ht, [])"
| "run_ops hashf (Op_find oid # ops) h ht =
     (case concurrent_chained_hashtable_find_obj_id hashf h ht oid of
        None \<Rightarrow> None
      | Some r \<Rightarrow> run_ops hashf ops h ht)"
| "run_ops hashf (Op_insert p # ops) h ht =
     (case concurrent_chained_hashtable_insert_obj hashf h ht p of
        None \<Rightarrow> None
      | Some (old, h1, ht1) \<Rightarrow>
          (case run_ops hashf ops h1 ht1 of
             None \<Rightarrow> None
           | Some (h2, ht2, ts) \<Rightarrow> Some (h2, ht2, p # (case old of None \<Rightarrow> [] | Some ob \<Rightarrow> [ob]) @ ts)))"
| "run_ops hashf (Op_delete oid # ops) h ht =
     (case concurrent_chained_hashtable_delete_obj_id hashf h ht oid of
        None \<Rightarrow> None
      | Some (r, h1, ht1) \<Rightarrow>
          (case run_ops hashf ops h1 ht1 of
             None \<Rightarrow> None
           | Some (h2, ht2, ts) \<Rightarrow> Some (h2, ht2, (case r of None \<Rightarrow> [] | Some ob \<Rightarrow> [ob]) @ ts)))"

subsection \<open>Concrete tables\<close>

text \<open>
  A table with two buckets whose bucket 1 holds the chain of nodes 1 and 2 (ids 5 and
  7); nodes 3 (id 7) and 4 (id 9) are not linked. The hash function is the identity, so
  the odd ids 5, 7 and 9 all select bucket 1. \<open>table_empty\<close> has sixteen empty buckets
  and \<open>table_sparse\<close> has only bucket 3 occupied; \<open>rnd_count\<close> is the random
  sequence 0, 1, 2, ...
\<close>

definition null_obj :: cache_obj_t where
  "null_obj = \<lparr>obj_id = 0, obj_size = 0, in_cache = False, hash_next = None, expired = False\<rparr>"

definition heap_ex :: heap where
  "heap_ex = (\<lambda>_. null_obj)
     (1 := \<lparr>obj_id = 5, obj_size = 1, in_cache = True, hash_next = Some 2, expired = False\<rparr>,
      2 := \<lparr>obj_id = 7, obj_size = 1, in_cache = True, hash_next = None, expired = False\<rparr>,
      3 := \<lparr>obj_id = 7, obj_size = 1, in_cache = True, hash_next = None, expired = False\<rparr>,
      4 := \<lparr>obj_id = 9, obj_size = 1, in_cache = True, hash_next = None, expired = False\<rparr>)"

definition table_ex :: hashtable_t where
  "table_ex = \<lparr>ptr_table = (\<lambda>_. None)(1 := Some 1), hashpower = 1, n_obj = 2\<rparr>"

definition table_empty :: hashtable_t where
  "table_empty = \<lparr>ptr_table = (\<lambda>_. None), hashpower = 4, n_obj = 0\<rparr>"

definition table_sparse :: hashtable_t where
  "table_sparse = \<lparr>ptr_table = (\<lambda>_. None)(3 := Some 1), hashpower = 4, n_obj = 1\<rparr>"

definition rnd_count :: "nat \<Rightarrow> 64 word" where
  "rnd_count n = of_nat n"

subsection \<open>Chains and the walk\<close>

lemma chain_path: "chain h p as = path h p as None"
  by (induction as arbitrary: p) auto

lemma path_append: "path h p (as @ bs) q = (\<exists>r. path h p as r \<and> path h r bs q)"
  by (induction as arbitrary: p) auto

lemma path_frame:
  "(\<And>a. a \<in> set as \<Longrightarrow> hash_next (h' a) = hash_next (h a)) \<Longrightarrow> path h' p as q = path h p as q"
  by (induction as arbitrary: p) auto

lemma chain_frame:
  "(\<And>a. a \<in> set as \<Longrightarrow> hash_next (h' a) = hash_next (h a)) \<Longrightarrow> chain h' p as = chain h p as"
  by (induction as arbitrary: p) auto

lemma chain_unique: "chain h p as \<Longrightarrow> chain h p bs \<Longrightarrow> as = bs"
proof (induction as arbitrary: p bs)
  case Nil
  then show ?case by (cases bs) auto
next
  case (Cons a as)
  then show ?case by (cases bs) auto
qed

lemma chain_append: "chain h p (as @ bs) = (\<exists>r. path h p as r \<and> chain h r bs)"
  by (simp add: chain_path path_append)

lemma chain_head_notin: "chain h (hash_next (h a)) as \<Longrightarrow> a \<notin> set as"
proof
  assume c: "chain h (hash_next (h a)) as" and "a \<in> set as"
  then obtain bs cs where as: "as = bs @ a # cs" by (auto simp: in_set_conv_decomp)
  with c have "chain h (hash_next (h a)) cs" by (auto simp: chain_append)
  with c have "as = cs" by (rule chain_unique)
  with as show False by simp
qed

lemma chain_distinct: "chain h p as \<Longrightarrow> distinct as"
  by (induction as arbitrary: p) (auto dest: chain_head_notin)

lemma walk_chain:
  "chain h (deref h ht c) as \<Longrightarrow> walk h ht oid c = Some (stop_cell h oid c as)"
proof (induction as arbitrary: c)
  case Nil
  then show ?case by (subst walk.simps) simp
next
  case (Cons a as)
  then show ?case by (subst walk.simps) auto
qed

lemma stop_cell_absent:
  "\<forall>a\<in>set as. obj_id (h a) \<noteq> oid \<Longrightarrow>
   stop_cell h oid c as = (if as = [] then c else Next_of (last as))"
  by (induction as arbitrary: c) auto

lemma stop_cell_present:
  "\<forall>a\<in>set xs. obj_id (h a) \<noteq> oid \<Longrightarrow> obj_id (h b) = oid \<Longrightarrow>
   stop_cell h oid c (xs @ b # ys) = (if xs = [] then c else Next_of (last xs))"
  by (induction xs arbitrary: c) auto

subsection \<open>Insert, find and delete on a well-formed chain\<close>

lemma insert_replace:
  assumes ch: "chain h (ptr_table ht b) (xs @ ob # ys)"
    and b: "b = bucket_of hashf ht (obj_id (h p))"
    and xs: "\<forall>a\<in>set xs. obj_id (h a) \<noteq> obj_id (h p)"
    and ob: "obj_id (h ob) = obj_id (h p)"
    and p: "p \<notin> set (xs @ ob # ys)"
  shows "\<exists>h' ht'. concurrent_chained_hashtable_insert_obj hashf h ht p = Some (Some ob, h', ht')
           \<and> chain h' (ptr_table ht' b) (xs @ p # ys)
           \<and> hash_next (h' p) = hash_next (h ob)
           \<and> \<not> in_cache (h' ob) \<and> \<not> in_cache (h' p)
           \<and> n_obj ht' = n_obj ht \<and> hashpower ht' = hashpower ht
           \<and> (\<forall>a. obj_id (h' a) = obj_id (h a))
           \<and> (\<forall>b'. b' \<noteq> b \<longrightarrow> ptr_table ht' b' = ptr_table ht b')"
proof -
  have d: "distinct (xs @ ob # ys)" using ch by (rule chain_distinct)
  have w: "find_pointer_locked h ht b (obj_id (h p)) = Some (if xs = [] then Bucket b else Next_of (last xs))"
    unfolding find_pointer_locked_def using walk_chain[of h ht "Bucket b" "xs @ ob # ys" "obj_id (h p)"] ch
      stop_cell_present[of xs h "obj_id (h p)" ob "Bucket b" ys] xs ob by simp
  show ?thesis
  proof (cases xs rule: rev_cases)
    case Nil
    with ch have c2: "chain h (hash_next (h ob)) ys" and hd: "ptr_table ht b = Some ob" by auto
    have "chain (h(p := h p\<lparr>hash_next := hash_next (h ob), in_cache := False\<rparr>,
                  ob := h ob\<lparr>in_cache := False\<rparr>)) (hash_next (h ob)) ys"
      using c2 p d Nil by (subst chain_frame[where h = h]) auto
    then show ?thesis using Nil w hd p b[symmetric]
      by (auto simp: concurrent_chained_hashtable_insert_obj_def cache_obj_set_in_cache_def Let_def)
  next
    case (snoc xs' l)
    with ch have p1: "path h (ptr_table ht b) xs' (Some l)" and l: "hash_next (h l) = Some ob"
      and c2: "chain h (hash_next (h ob)) ys"
      by (auto simp: chain_append path_append)
    let ?h = "h(p := h p\<lparr>hash_next := hash_next (h ob), in_cache := False\<rparr>,
                l := h l\<lparr>hash_next := Some p\<rparr>, ob := h ob\<lparr>in_cache := False\<rparr>)"
    have "path ?h (ptr_table ht b) xs' (Some l)"
      using p1 p d snoc by (subst path_frame[where h = h]) auto
    moreover have "chain ?h (hash_next (h ob)) ys"
      using c2 p d snoc by (subst chain_frame[where h = h]) auto
    ultimately have "chain ?h (ptr_table ht b) (xs' @ l # p # ys)"
      using p d snoc by (auto simp: chain_append)
    then show ?thesis using snoc w l p d b[symmetric]
      by (auto simp: concurrent_chained_hashtable_insert_obj_def cache_obj_set_in_cache_def Let_def)
  qed
qed

lemma insert_fresh:
  assumes ch: "chain h (ptr_table ht b) xs"
    and b: "b = bucket_of hashf ht (obj_id (h p))"
    and xs: "\<forall>a\<in>set xs. obj_id (h a) \<noteq> obj_id (h p)"
    and p: "p \<notin> set xs"
  shows "\<exists>h' ht'. concurrent_chained_hashtable_insert_obj hashf h ht p = Some (None, h', ht')
           \<and> chain h' (ptr_table ht' b) (xs @ [p])
           \<and> hash_next (h' p) = None
           \<and> \<not> in_cache (h' p)
           \<and> n_obj ht' = n_obj ht + 1 \<and> hashpower ht' = hashpower ht
           \<and> (\<forall>a. obj_id (h' a) = obj_id (h a))
           \<and> (\<forall>b'. b' \<noteq> b \<longrightarrow> ptr_table ht' b' = ptr_table ht b')"
proof -
  have d: "distinct xs" using ch by (rule chain_distinct)
  have w: "find_pointer_locked h ht b (obj_id (h p)) = Some (if xs = [] then Bucket b else Next_of (last xs))"
    unfolding find_pointer_locked_def using walk_chain[of h ht "Bucket b" xs "obj_id (h p)"] ch
      stop_cell_absent[of xs h "obj_id (h p)" "Bucket b"] xs by simp
  show ?thesis
  proof (cases xs rule: rev_cases)
    case Nil
    with ch have hd: "ptr_table ht b = None" by auto
    then show ?thesis using Nil w hd p b[symmetric]
      by (auto simp: concurrent_chained_hashtable_insert_obj_def cache_obj_set_in_cache_def Let_def)
  next
    case (snoc xs' l)
    with ch have p1: "path h (ptr_table ht b) xs' (Some l)" and l: "hash_next (h l) = None"
      by (auto simp: chain_append path_append)
    let ?h = "h(p := h p\<lparr>hash_next := None, in_cache := False\<rparr>,
                l := h l\<lparr>hash_next := Some p\<rparr>)"
    have "path ?h (ptr_table ht b) xs' (Some l)"
      using p1 p d snoc by (subst path_frame[where h = h]) auto
    then have "chain ?h (ptr_table ht b) (xs' @ l # [p])"
      using p d snoc by (auto simp: chain_append)
    then show ?thesis using snoc w l p d b[symmetric]
      by (auto simp: concurrent_chained_hashtable_insert_obj_def cache_obj_set_in_cache_def Let_def)
  qed
qed

lemma walk_path_present:
  "path h (deref h ht c) xs (Some b) \<Longrightarrow> \<forall>a\<in>set xs. obj_id (h a) \<noteq> oid \<Longrightarrow> obj_id (h b) = oid \<Longrightarrow>
   \<exists>c'. walk h ht oid c = Some c' \<and> deref h ht c' = Some b"
proof (induction xs arbitrary: c)
  case Nil
  then show ?case by (subst walk.simps) simp
next
  case (Cons a as)
  then show ?case by (subst walk.simps) auto
qed

lemma walk_chain_absent:
  "chain h (deref h ht c) as \<Longrightarrow> \<forall>a\<in>set as. obj_id (h a) \<noteq> oid \<Longrightarrow>
   \<exists>c'. walk h ht oid c = Some c' \<and> deref h ht c' = None"
proof (induction as arbitrary: c)
  case Nil
  then show ?case by (subst walk.simps) simp
next
  case (Cons a as)
  then show ?case by (subst walk.simps) auto
qed

lemma find_present:
  "path h (ptr_table ht (bucket_of hashf ht oid)) xs (Some b) \<Longrightarrow> \<forall>a\<in>set xs. obj_id (h a) \<noteq> oid \<Longrightarrow>
   obj_id (h b) = oid \<Longrightarrow> concurrent_chained_hashtable_find_obj_id hashf h ht oid = Some (Some b)"
  using walk_path_present[of h ht "Bucket (bucket_of hashf ht oid)" xs b oid]
  by (auto simp: concurrent_chained_hashtable_find_obj_id_def find_pointer_locked_def)

lemma find_absent:
  "chain h (ptr_table ht (bucket_of hashf ht oid)) as \<Longrightarrow> \<forall>a\<in>set as. obj_id (h a) \<noteq> oid \<Longrightarrow>
   concurrent_chained_hashtable_find_obj_id hashf h ht oid = Some None"
  using walk_chain_absent[of h ht "Bucket (bucket_of hashf ht oid)" as oid]
  by (auto simp: concurrent_chained_hashtable_find_obj_id_def find_pointer_locked_def)

lemma delete_absent:
  "chain h (ptr_table ht (bucket_of hashf ht oid)) as \<Longrightarrow> \<forall>a\<in>set as. obj_id (h a) \<noteq> oid \<Longrightarrow>
   concurrent_chained_hashtable_delete_obj_id hashf h ht oid = Some (None, h, ht)"
  using walk_chain_absent[of h ht "Bucket (bucket_of hashf ht oid)" as oid]
  by (auto simp: concurrent_chained_hashtable_delete_obj_id_def find_pointer_locked_def)

lemma delete_present:
  assumes ch: "chain h (ptr_table ht b) (xs @ r # ys)"
    and b: "b = bucket_of hashf ht oid"
    and xs: "\<forall>a\<in>set xs. obj_id (h a) \<noteq> oid"
    and r: "obj_id (h r) = oid"
  shows "\<exists>h' ht'. concurrent_chained_hashtable_delete_obj_id hashf h ht oid = Some (Some r, h', ht')
           \<and> chain h' (ptr_table ht' b) (xs @ ys)
           \<and> \<not> in_cache (h' r)
           \<and> n_obj ht' = n_obj ht - 1 \<and> hashpower ht' = hashpower ht
           \<and> (\<forall>a. obj_id (h' a) = obj_id (h a))
           \<and> (\<forall>b'. b' \<noteq> b \<longrightarrow> ptr_table ht' b' = ptr_table ht b')"
proof -
  have d: "distinct (xs @ r # ys)" using ch by (rule chain_distinct)
  have w: "find_pointer_locked h ht b oid = Some (if xs = [] then Bucket b else Next_of (last xs))"
    unfolding find_pointer_locked_def using walk_chain[of h ht "Bucket b" "xs @ r # ys" oid] ch
      stop_cell_present[of xs h oid r "Bucket b" ys] xs r by simp
  show ?thesis
  proof (cases xs rule: rev_cases)
    case Nil
    with ch have c2: "chain h (hash_next (h r)) ys" and hd: "ptr_table ht b = Some r" by auto
    have "chain (h(r := h r\<lparr>in_cache := False\<rparr>)) (hash_next (h r)) ys"
      using c2 d Nil by (subst chain_frame[where h = h]) auto
    then show ?thesis using Nil w hd b[symmetric]
      by (auto simp: concurrent_chained_hashtable_delete_obj_id_def cache_obj_set_in_cache_def Let_def)
  next
    case (snoc xs' l)
    with ch have p1: "path h (ptr_table ht b) xs' (Some l)" and l: "hash_next (h l) = Some r"
      and c2: "chain h (hash_next (h r)) ys"
      by (auto simp: chain_append path_append)
    let ?h = "h(r := h r\<lparr>in_cache := False\<rparr>, l := h l\<lparr>hash_next := hash_next (h r)\<rparr>)"
    have "path ?h (ptr_table ht b) xs' (Some l)"
      using p1 d snoc by (subst path_frame[where h = h]) auto
    moreover have "chain ?h (hash_next (h r)) ys"
      using c2 d snoc by (subst chain_frame[where h = h]) auto
    ultimately have "chain ?h (ptr_table ht b) (xs' @ l # ys)"
      using d snoc by (auto simp: chain_append)
    then show ?thesis using snoc w l d b[symmetric]
      by (auto simp: concurrent_chained_hashtable_delete_obj_id_def cache_obj_set_in_cache_def Let_def)
  qed
qed

lemma insert_links:
  assumes ch: "chain h (ptr_table ht b) (xs @ rest)"
    and b: "b = bucket_of hashf ht (obj_id (h p))"
    and xs: "\<forall>a\<in>set xs. obj_id (h a) \<noteq> obj_id (h p)"
    and rest: "rest = [] \<or> obj_id (h (hd rest)) = obj_id (h p)"
  shows "\<exists>r h' ht'. concurrent_chained_hashtable_insert_obj hashf h ht p = Some (r, h', ht')
           \<and> path h' (ptr_table ht' b) xs (Some p)
           \<and> hashpower ht' = hashpower ht
           \<and> (\<forall>a. obj_id (h' a) = obj_id (h a))"
proof -
  have d: "distinct (xs @ rest)" using ch by (rule chain_distinct)
  have pxs: "p \<notin> set xs" using xs by auto
  have sc: "stop_cell h (obj_id (h p)) (Bucket b) (xs @ rest) = (if xs = [] then Bucket b else Next_of (last xs))"
  proof (cases rest)
    case Nil
    then show ?thesis using stop_cell_absent[of xs h "obj_id (h p)" "Bucket b"] xs by simp
  next
    case (Cons ob ys)
    then show ?thesis using stop_cell_present[of xs h "obj_id (h p)" ob "Bucket b" ys] xs rest by simp
  qed
  have w: "find_pointer_locked h ht b (obj_id (h p)) = Some (if xs = [] then Bucket b else Next_of (last xs))"
    unfolding find_pointer_locked_def using walk_chain[of h ht "Bucket b" "xs @ rest" "obj_id (h p)"] ch sc
    by simp
  show ?thesis
  proof (cases xs rule: rev_cases)
    case Nil
    then show ?thesis using w b[symmetric]
      by (auto simp: concurrent_chained_hashtable_insert_obj_def cache_obj_set_in_cache_def Let_def
          split: option.splits)
  next
    case (snoc xs' l)
    with ch have p1: "path h (ptr_table ht b) xs' (Some l)"
      by (auto simp: chain_append path_append)
    have lp: "l \<noteq> p" "l \<notin> set xs'" "p \<notin> set xs'" using pxs d snoc by auto
    have fr: "path h' (ptr_table ht b) xs' (Some l)"
      if H: "\<And>a. a \<noteq> p \<Longrightarrow> a \<noteq> l \<Longrightarrow> hash_next (h' a) = hash_next (h a)" for h'
    proof -
      have "hash_next (h' a) = hash_next (h a)" if a: "a \<in> set xs'" for a
      proof (rule H)
        show "a \<noteq> p" using a lp by auto
        show "a \<noteq> l" using a lp by auto
      qed
      then have "path h' (ptr_table ht b) xs' (Some l) = path h (ptr_table ht b) xs' (Some l)"
        by (rule path_frame)
      then show ?thesis using p1 by simp
    qed
    show ?thesis
    proof (cases "hash_next (h l)")
      case None
      have "path (h(p := h p\<lparr>hash_next := None, in_cache := False\<rparr>,
                    l := h l\<lparr>hash_next := Some p\<rparr>)) (ptr_table ht b) xs' (Some l)"
        by (rule fr) auto
      then show ?thesis using snoc w lp None b[symmetric]
        by (auto simp: concurrent_chained_hashtable_insert_obj_def cache_obj_set_in_cache_def Let_def
            path_append)
    next
      case (Some ob)
      have "path ((h(p := h p\<lparr>hash_next := hash_next (h ob), in_cache := False\<rparr>,
                    l := h l\<lparr>hash_next := Some p\<rparr>))
                  (ob := (h(p := h p\<lparr>hash_next := hash_next (h ob), in_cache := False\<rparr>,
                    l := h l\<lparr>hash_next := Some p\<rparr>)) ob\<lparr>in_cache := False\<rparr>)) (ptr_table ht b) xs' (Some l)"
        by (rule fr) auto
      then show ?thesis using snoc w lp Some b[symmetric]
        by (auto simp: concurrent_chained_hashtable_insert_obj_def cache_obj_set_in_cache_def Let_def
            path_append)
    qed
  qed
qed

lemma find_after_insert:
  assumes ch: "chain h (ptr_table ht (bucket_of hashf ht (obj_id (h p)))) as"
  shows "\<exists>r h' ht'. concurrent_chained_hashtable_insert_obj hashf h ht p = Some (r, h', ht')
           \<and> concurrent_chained_hashtable_find_obj_id hashf h' ht' (obj_id (h p)) = Some (Some p)"
proof -
  let ?k = "obj_id (h p)"
  let ?b = "bucket_of hashf ht ?k"
  obtain xs rest where as: "as = xs @ rest" and xs: "\<forall>a\<in>set xs. obj_id (h a) \<noteq> ?k"
    and rest: "rest = [] \<or> obj_id (h (hd rest)) = ?k"
  proof (cases "\<exists>a\<in>set as. obj_id (h a) = ?k")
    case True
    then obtain xs ob ys where "as = xs @ ob # ys" "obj_id (h ob) = ?k" "\<forall>a\<in>set xs. obj_id (h a) \<noteq> ?k"
      using split_list_first_prop[of as "\<lambda>a. obj_id (h a) = ?k"] by auto
    then show ?thesis using that[of xs "ob # ys"] by simp
  next
    case False
    then show ?thesis using that[of as "[]"] by simp
  qed
  from insert_links[OF ch[unfolded as] refl xs rest] obtain r h' ht' where
    i: "concurrent_chained_hashtable_insert_obj hashf h ht p = Some (r, h', ht')"
    and pa: "path h' (ptr_table ht' ?b) xs (Some p)"
    and hp: "hashpower ht' = hashpower ht" and ids: "\<forall>a. obj_id (h' a) = obj_id (h a)"
    by blast
  have bb: "bucket_of hashf ht' ?k = ?b" using hp by (simp add: bucket_of_def)
  have "concurrent_chained_hashtable_find_obj_id hashf h' ht' ?k = Some (Some p)"
    by (rule find_present[where xs = xs]) (use pa bb xs ids in auto)
  with i show ?thesis by blast
qed

lemma find_after_delete:
  assumes ch: "chain h (ptr_table ht (bucket_of hashf ht oid)) as"
    and di: "distinct (map (\<lambda>a. obj_id (h a)) as)"
  shows "\<exists>r h' ht'. concurrent_chained_hashtable_delete_obj_id hashf h ht oid = Some (r, h', ht')
           \<and> concurrent_chained_hashtable_find_obj_id hashf h' ht' oid = Some None"
proof (cases "\<exists>a\<in>set as. obj_id (h a) = oid")
  case False
  then have "concurrent_chained_hashtable_delete_obj_id hashf h ht oid = Some (None, h, ht)"
    using delete_absent[OF ch] by simp
  moreover have "concurrent_chained_hashtable_find_obj_id hashf h ht oid = Some None"
    using find_absent[OF ch] False by simp
  ultimately show ?thesis by blast
next
  case True
  then obtain xs ob ys where as: "as = xs @ ob # ys" and ob: "obj_id (h ob) = oid"
    and xs: "\<forall>a\<in>set xs. obj_id (h a) \<noteq> oid"
    using split_list_first_prop[of as "\<lambda>a. obj_id (h a) = oid"] by auto
  from delete_present[OF ch[unfolded as] refl xs ob] obtain h' ht' where
    dl: "concurrent_chained_hashtable_delete_obj_id hashf h ht oid = Some (Some ob, h', ht')"
    and c': "chain h' (ptr_table ht' (bucket_of hashf ht oid)) (xs @ ys)"
    and hp: "hashpower ht' = hashpower ht" and ids: "\<forall>a. obj_id (h' a) = obj_id (h a)"
    by blast
  have bb: "bucket_of hashf ht' oid = bucket_of hashf ht oid" using hp by (simp add: bucket_of_def)
  have "obj_id (h ob) \<notin> (\<lambda>a. obj_id (h a)) ` set ys" using di as by simp
  then have "\<forall>a\<in>set ys. obj_id (h a) \<noteq> oid" using ob by (metis imageI)
  then have "\<forall>a\<in>set (xs @ ys). obj_id (h' a) \<noteq> oid" using xs ids by auto
  with c' bb have "concurrent_chained_hashtable_find_obj_id hashf h' ht' oid = Some None"
    using find_absent[of h' ht' hashf oid "xs @ ys"] by simp
  with dl show ?thesis by blast
qed

subsection \<open>The in-cache flag\<close>

lemma insert_in_cache:
  assumes "concurrent_chained_hashtable_insert_obj hashf h ht p = Some (old, h', ht')"
  shows "\<not> in_cache (h' p) \<and> (\<forall>ob. old = Some ob \<longrightarrow> \<not> in_cache (h' ob)) \<and>
         (\<forall>a. in_cache (h' a) \<longrightarrow> in_cache (h a))"
proof -
  from assms obtain c where
    c: "find_pointer_locked h ht (bucket_of hashf ht (obj_id (h p))) (obj_id (h p)) = Some c"
    by (auto simp: concurrent_chained_hashtable_insert_obj_def split: option.splits)
  show ?thesis
  proof (cases c)
    case (Bucket b)
    with assms c show ?thesis
      by (auto simp: concurrent_chained_hashtable_insert_obj_def cache_obj_set_in_cache_def Let_def
          split: option.splits if_splits)
  next
    case (Next_of l)
    with assms c show ?thesis
      by (auto simp: concurrent_chained_hashtable_insert_obj_def cache_obj_set_in_cache_def Let_def
          split: option.splits if_splits)
  qed
qed

lemma delete_in_cache:
  assumes "concurrent_chained_hashtable_delete_obj_id hashf h ht oid = Some (r, h', ht')"
  shows "(\<forall>ob. r = Some ob \<longrightarrow> \<not> in_cache (h' ob)) \<and> (\<forall>a. in_cache (h' a) \<longrightarrow> in_cache (h a))"
proof -
  from assms obtain c where
    c: "find_pointer_locked h ht (bucket_of hashf ht oid) oid = Some c"
    by (auto simp: concurrent_chained_hashtable_delete_obj_id_def split: option.splits)
  show ?thesis
  proof (cases c)
    case (Bucket b)
    with assms c show ?thesis
      by (auto simp: concurrent_chained_hashtable_delete_obj_id_def cache_obj_set_in_cache_def Let_def
          split: option.splits if_splits)
  next
    case (Next_of l)
    with assms c show ?thesis
      by (auto simp: concurrent_chained_hashtable_delete_obj_id_def cache_obj_set_in_cache_def Let_def
          split: option.splits if_splits)
  qed
qed

lemma run_ops_in_cache:
  "run_ops hashf ops h ht = Some (h', ht', ts) \<Longrightarrow>
   (\<forall>a\<in>set ts. \<not> in_cache (h' a)) \<and> (\<forall>a. in_cache (h' a) \<longrightarrow> in_cache (h a))"
proof (induction hashf ops h ht arbitrary: h' ht' ts rule: run_ops.induct)
  case (1 hashf h ht)
  then show ?case by simp
next
  case (2 hashf oid ops h ht)
  then show ?case by (auto split: option.splits)
next
  case (3 hashf p ops h ht)
  from "3.prems" obtain old h1 ht1 h2 ht2 ts2 where
    i: "concurrent_chained_hashtable_insert_obj hashf h ht p = Some (old, h1, ht1)"
    and r: "run_ops hashf ops h1 ht1 = Some (h2, ht2, ts2)"
    and e: "h' = h2" "ts = p # (case old of None \<Rightarrow> [] | Some ob \<Rightarrow> [ob]) @ ts2"
    by (auto split: option.splits prod.splits)
  from "3.IH"[OF i refl refl r]
  have ih: "(\<forall>a\<in>set ts2. \<not> in_cache (h2 a)) \<and> (\<forall>a. in_cache (h2 a) \<longrightarrow> in_cache (h1 a))" .
  from insert_in_cache[OF i] ih e show ?case by (auto split: option.splits)
next
  case (4 hashf oid ops h ht)
  from "4.prems" obtain r h1 ht1 h2 ht2 ts2 where
    i: "concurrent_chained_hashtable_delete_obj_id hashf h ht oid = Some (r, h1, ht1)"
    and rr: "run_ops hashf ops h1 ht1 = Some (h2, ht2, ts2)"
    and e: "h' = h2" "ts = (case r of None \<Rightarrow> [] | Some ob \<Rightarrow> [ob]) @ ts2"
    by (auto split: option.splits prod.splits)
  from "4.IH"[OF i refl refl rr]
  have ih: "(\<forall>a\<in>set ts2. \<not> in_cache (h2 a)) \<and> (\<forall>a. in_cache (h2 a) \<longrightarrow> in_cache (h1 a))" .
  from delete_in_cache[OF i] ih e show ?case by (auto split: option.splits)
qed

subsection \<open>The random probe\<close>

lemma rand_probe_returns_nonempty:
  assumes "rand_probe rnd ht n pos = Some r"
  shows "r \<noteq> None"
  by (rule rand_probe.raw_induct[where P = "\<lambda>_ _ _ _ y. y \<noteq> None", OF _ assms])
     (auto split: if_splits)

lemma rand_probe_returns_hit:
  assumes "rand_probe rnd ht n pos = Some r"
  shows "ptr_table ht pos \<noteq> None \<or> (\<exists>j\<ge>n. ptr_table ht (rnd j AND hashmask (hashpower ht)) \<noteq> None)"
proof (rule rand_probe.raw_induct[where P = "\<lambda>rnd ht n pos y.
    ptr_table ht pos \<noteq> None \<or> (\<exists>j\<ge>n. ptr_table ht (rnd j AND hashmask (hashpower ht)) \<noteq> None)", OF _ assms])
  fix f rnd ht n pos and y :: "addr option"
  assume IH: "\<And>rnd ht n pos y. f rnd ht n pos = Some y \<Longrightarrow>
      ptr_table ht pos \<noteq> None \<or> (\<exists>j\<ge>n. ptr_table ht (rnd j AND hashmask (hashpower ht)) \<noteq> None)"
    and body: "(if ptr_table ht pos = None
      then f rnd ht (Suc n) (rnd n AND hashmask (hashpower ht))
      else Some (ptr_table ht pos)) = Some y"
  show "ptr_table ht pos \<noteq> None \<or> (\<exists>j\<ge>n. ptr_table ht (rnd j AND hashmask (hashpower ht)) \<noteq> None)"
  proof (cases "ptr_table ht pos = None")
    case True
    with body have "f rnd ht (Suc n) (rnd n AND hashmask (hashpower ht)) = Some y" by simp
    from IH[OF this] have "ptr_table ht (rnd n AND hashmask (hashpower ht)) \<noteq> None \<or>
       (\<exists>j\<ge>Suc n. ptr_table ht (rnd j AND hashmask (hashpower ht)) \<noteq> None)" .
    then show ?thesis by (metis Suc_leD order_refl)
  next
    case False
    then show ?thesis by simp
  qed
qed

lemma rand_probe_first_hit:
  "\<forall>j<k. ptr_table ht (case j of 0 \<Rightarrow> pos | Suc i \<Rightarrow> rnd (n + i) AND hashmask (hashpower ht)) = None \<Longrightarrow>
   ptr_table ht (case k of 0 \<Rightarrow> pos | Suc i \<Rightarrow> rnd (n + i) AND hashmask (hashpower ht)) \<noteq> None \<Longrightarrow>
   rand_probe rnd ht n pos =
     Some (ptr_table ht (case k of 0 \<Rightarrow> pos | Suc i \<Rightarrow> rnd (n + i) AND hashmask (hashpower ht)))"
proof (induction k arbitrary: n pos)
  case 0
  then show ?case by (subst rand_probe.simps) auto
next
  case (Suc k)
  from Suc.prems(1) have e: "ptr_table ht pos = None" by (auto dest: spec[of _ 0])
  have "rand_probe rnd ht (Suc n) (rnd n AND hashmask (hashpower ht)) =
     Some (ptr_table ht (case k of 0 \<Rightarrow> rnd n AND hashmask (hashpower ht)
                          | Suc i \<Rightarrow> rnd (Suc n + i) AND hashmask (hashpower ht)))"
  proof (rule Suc.IH)
    show "\<forall>j<k. ptr_table ht (case j of 0 \<Rightarrow> rnd n AND hashmask (hashpower ht)
                          | Suc i \<Rightarrow> rnd (Suc n + i) AND hashmask (hashpower ht)) = None"
    proof (intro allI impI)
      fix j assume "j < k"
      with Suc.prems(1) have "ptr_table ht (case Suc j of 0 \<Rightarrow> pos | Suc i \<Rightarrow> rnd (n + i) AND hashmask (hashpower ht)) = None"
        by (auto simp del: nat.case)
      then show "ptr_table ht (case j of 0 \<Rightarrow> rnd n AND hashmask (hashpower ht)
                          | Suc i \<Rightarrow> rnd (Suc n + i) AND hashmask (hashpower ht)) = None"
        by (cases j) auto
    qed
    show "ptr_table ht (case k of 0 \<Rightarrow> rnd n AND hashmask (hashpower ht)
                          | Suc i \<Rightarrow> rnd (Suc n + i) AND hashmask (hashpower ht)) \<noteq> None"
      using Suc.prems(2) by (cases k) auto
  qed
  then show ?case using e by (subst rand_probe.simps) (cases k; simp)
qed

lemma rand_obj_first_hit:
  assumes "\<forall>j<k. ptr_table ht (rnd j AND hashmask (hashpower ht)) = None"
    and "ptr_table ht (rnd k AND hashmask (hashpower ht)) \<noteq> None"
  shows "concurrent_chained_hashtable_rand_obj rnd ht = Some (ptr_table ht (rnd k AND hashmask (hashpower ht)))"
proof -
  have "rand_probe rnd ht 1 (rnd 0 AND hashmask (hashpower ht)) =
     Some (ptr_table ht (case k of 0 \<Rightarrow> rnd 0 AND hashmask (hashpower ht) | Suc i \<Rightarrow> rnd (1 + i) AND hashmask (hashpower ht)))"
  proof (rule rand_probe_first_hit)
    show "\<forall>j<k. ptr_table ht (case j of 0 \<Rightarrow> rnd 0 AND hashmask (hashpower ht) | Suc i \<Rightarrow> rnd (1 + i) AND hashmask (hashpower ht)) = None"
      using assms(1) by (auto split: nat.splits)
    show "ptr_table ht (case k of 0 \<Rightarrow> rnd 0 AND hashmask (hashpower ht) | Suc i \<Rightarrow> rnd (1 + i) AND hashmask (hashpower ht)) \<noteq> None"
      using assms(2) by (auto split: nat.splits)
  qed
  then show ?thesis by (auto simp: concurrent_chained_hashtable_rand_obj_def split: nat.splits)
qed

lemma rand_obj_no_hit:
  assumes "\<forall>j. ptr_table ht (rnd j AND hashmask (hashpower ht)) = None"
  shows "concurrent_chained_hashtable_rand_obj rnd ht = None"
proof (cases "concurrent_chained_hashtable_rand_obj rnd ht")
  case None
  then show ?thesis .
next
  case (Some r)
  then have "rand_probe rnd ht 1 (rnd 0 AND hashmask (hashpower ht)) = Some r"
    by (simp add: concurrent_chained_hashtable_rand_obj_def)
  from rand_probe_returns_hit[OF this] assms show ?thesis by auto
qed

subsection \<open>Evaluating the concrete tables\<close>

lemma bucket_ex:
  "bucket_of id table_ex 5 = 1" "bucket_of id table_ex 7 = 1" "bucket_of id table_ex 9 = 1"
  by (simp_all add: bucket_of_def table_ex_def hashmask_def hashsize_def)

lemma heap_ex_simps:
  "heap_ex (Suc 0) = \<lparr>obj_id = 5, obj_size = 1, in_cache = True, hash_next = Some 2, expired = False\<rparr>"
  "heap_ex 1 = \<lparr>obj_id = 5, obj_size = 1, in_cache = True, hash_next = Some 2, expired = False\<rparr>"
  "heap_ex 2 = \<lparr>obj_id = 7, obj_size = 1, in_cache = True, hash_next = None, expired = False\<rparr>"
  "heap_ex 3 = \<lparr>obj_id = 7, obj_size = 1, in_cache = True, hash_next = None, expired = False\<rparr>"
  "heap_ex 4 = \<lparr>obj_id = 9, obj_size = 1, in_cache = True, hash_next = None, expired = False\<rparr>"
  by (simp_all add: heap_ex_def)

lemma table_ex_simps:
  "ptr_table table_ex 1 = Some 1" "n_obj table_ex = 2" "hashpower table_ex = 1"
  by (simp_all add: table_ex_def)

lemma mask4: "hashmask 4 = 15"
  by (simp add: hashmask_def hashsize_def)

section \<open>Properties of the hash table\<close>

text \<open>
  Claim C1 says that an insert of an id with no entry in its bucket makes the new node
  the head of the chain. The walk of \<^verbatim>\<open>find_pointer_locked\<close> stops at the
  \<^verbatim>\<open>NULL\<close> cell that ends the chain, and the new node is stored there. In
  \<open>heap_ex\<close> bucket 1 holds nodes 1 and 2; inserting node 4 (id 9, no entry) returns
  \<^verbatim>\<open>NULL\<close>, leaves node 1 at the head and links node 4 behind node 2.
\<close>

theorem insert_obj_fresh_id_not_chain_head:
  "\<exists>h' ht'. concurrent_chained_hashtable_insert_obj id heap_ex table_ex 4 = Some (None, h', ht')
     \<and> ptr_table ht' 1 = Some 1 \<and> ptr_table ht' 1 \<noteq> Some 4
     \<and> hash_next (h' 2) = Some 4 \<and> hash_next (h' 4) = None"
  by (simp add: concurrent_chained_hashtable_insert_obj_def find_pointer_locked_def walk.simps
      bucket_of_def table_ex_def heap_ex_def hashmask_def hashsize_def cache_obj_set_in_cache_def)

text \<open>
  Claim C1, amended. Let the chain of the new node's bucket be \<open>xs @ rest\<close>, ending in
  \<^verbatim>\<open>NULL\<close>, with no node of \<open>xs\<close> carrying the new node's id, and let the new node
  \<open>p\<close> not be linked in that chain.
  \<^item> If \<open>rest\<close> starts with a node \<open>ob\<close> of the same id, the insert returns \<open>ob\<close>,
    \<open>p\<close> stands at the position of \<open>ob\<close> in the chain and has taken over its
    \<^verbatim>\<open>hash_next\<close>, \<open>ob\<close> is no longer in the chain, both nodes have
    \<^verbatim>\<open>in_cache = false\<close>, and \<^verbatim>\<open>n_obj\<close> is unchanged.
  \<^item> If the id has no entry (\<open>rest\<close> is empty), the insert returns \<^verbatim>\<open>NULL\<close>, \<open>p\<close>
    becomes the last node of the chain (the head only when the bucket was empty: a
    non-empty bucket keeps its head), its \<^verbatim>\<open>hash_next\<close> is \<^verbatim>\<open>NULL\<close>, its
    \<^verbatim>\<open>in_cache\<close> is false, and \<^verbatim>\<open>n_obj\<close> grows by one.
\<close>

theorem insert_obj_replaces_or_appends:
  assumes "chain h (ptr_table ht (bucket_of hashf ht (obj_id (h p)))) (xs @ rest)"
    and "\<forall>a\<in>set xs. obj_id (h a) \<noteq> obj_id (h p)"
    and "p \<notin> set (xs @ rest)"
  shows "(\<forall>ob ys. rest = ob # ys \<and> obj_id (h ob) = obj_id (h p) \<longrightarrow>
            (\<exists>h' ht'. concurrent_chained_hashtable_insert_obj hashf h ht p = Some (Some ob, h', ht')
               \<and> chain h' (ptr_table ht' (bucket_of hashf ht (obj_id (h p)))) (xs @ p # ys)
               \<and> hash_next (h' p) = hash_next (h ob)
               \<and> ob \<notin> set (xs @ p # ys)
               \<and> \<not> in_cache (h' ob) \<and> \<not> in_cache (h' p)
               \<and> n_obj ht' = n_obj ht))
       \<and> (rest = [] \<longrightarrow>
            (\<exists>h' ht'. concurrent_chained_hashtable_insert_obj hashf h ht p = Some (None, h', ht')
               \<and> chain h' (ptr_table ht' (bucket_of hashf ht (obj_id (h p)))) (xs @ [p])
               \<and> (xs \<noteq> [] \<longrightarrow> ptr_table ht' (bucket_of hashf ht (obj_id (h p)))
                                 = ptr_table ht (bucket_of hashf ht (obj_id (h p))))
               \<and> hash_next (h' p) = None
               \<and> \<not> in_cache (h' p)
               \<and> n_obj ht' = n_obj ht + 1))"
proof (intro conjI allI impI)
  fix ob ys
  assume r: "rest = ob # ys \<and> obj_id (h ob) = obj_id (h p)"
  have d: "distinct (xs @ ob # ys)"
    by (rule chain_distinct[OF assms(1)[unfolded conjunct1[OF r]]])
  from insert_replace[OF assms(1)[unfolded conjunct1[OF r]] refl assms(2) conjunct2[OF r]] assms(3) r
  obtain h' ht' where "concurrent_chained_hashtable_insert_obj hashf h ht p = Some (Some ob, h', ht')"
    "chain h' (ptr_table ht' (bucket_of hashf ht (obj_id (h p)))) (xs @ p # ys)"
    "hash_next (h' p) = hash_next (h ob)" "\<not> in_cache (h' ob)" "\<not> in_cache (h' p)" "n_obj ht' = n_obj ht"
    by auto
  moreover have "ob \<notin> set (xs @ p # ys)" using d assms(3) r by auto
  ultimately show "\<exists>h' ht'. concurrent_chained_hashtable_insert_obj hashf h ht p = Some (Some ob, h', ht')
               \<and> chain h' (ptr_table ht' (bucket_of hashf ht (obj_id (h p)))) (xs @ p # ys)
               \<and> hash_next (h' p) = hash_next (h ob)
               \<and> ob \<notin> set (xs @ p # ys)
               \<and> \<not> in_cache (h' ob) \<and> \<not> in_cache (h' p)
               \<and> n_obj ht' = n_obj ht" by blast
next
  assume r: "rest = []"
  from insert_fresh[OF assms(1)[unfolded r append_Nil2] refl assms(2)] assms(3) r
  obtain h' ht' where i: "concurrent_chained_hashtable_insert_obj hashf h ht p = Some (None, h', ht')"
    "chain h' (ptr_table ht' (bucket_of hashf ht (obj_id (h p)))) (xs @ [p])"
    "hash_next (h' p) = None" "\<not> in_cache (h' p)" "n_obj ht' = n_obj ht + 1"
    by auto
  have "ptr_table ht' (bucket_of hashf ht (obj_id (h p))) = ptr_table ht (bucket_of hashf ht (obj_id (h p)))"
    if "xs \<noteq> []"
    using that i(2) assms(1) r by (cases xs) auto
  with i show "\<exists>h' ht'. concurrent_chained_hashtable_insert_obj hashf h ht p = Some (None, h', ht')
               \<and> chain h' (ptr_table ht' (bucket_of hashf ht (obj_id (h p)))) (xs @ [p])
               \<and> (xs \<noteq> [] \<longrightarrow> ptr_table ht' (bucket_of hashf ht (obj_id (h p)))
                                 = ptr_table ht (bucket_of hashf ht (obj_id (h p))))
               \<and> hash_next (h' p) = None
               \<and> \<not> in_cache (h' p)
               \<and> n_obj ht' = n_obj ht + 1" by blast
qed

theorem insert_obj_replaces_or_appends_witness:
  "(\<exists>h' ht'. concurrent_chained_hashtable_insert_obj id heap_ex table_ex 3 = Some (Some 2, h', ht')
       \<and> chain h' (ptr_table ht' 1) [1, 3] \<and> hash_next (h' 3) = None
       \<and> \<not> in_cache (h' 2) \<and> \<not> in_cache (h' 3) \<and> n_obj ht' = 2)
   \<and> (\<exists>h' ht'. concurrent_chained_hashtable_insert_obj id heap_ex table_ex 4 = Some (None, h', ht')
       \<and> chain h' (ptr_table ht' 1) [1, 2, 4] \<and> ptr_table ht' 1 = Some 1 \<and> hash_next (h' 4) = None
       \<and> \<not> in_cache (h' 4) \<and> n_obj ht' = 3)"
  using insert_obj_replaces_or_appends[of heap_ex table_ex id 3 "[1]" "[2]"]
    insert_obj_replaces_or_appends[of heap_ex table_ex id 4 "[1, 2]" "[]"]
  by (simp add: bucket_ex heap_ex_simps table_ex_simps)

text \<open>
  Claim C6 says that \<^verbatim>\<open>random_obj\<close> gives up after a bounded number of probes and
  returns \<^verbatim>\<open>NULL\<close>, in particular on an empty table. The loop of
  \<^verbatim>\<open>concurrent_chained_hashtable_rand_obj\<close> has no retry bound: on the empty table
  \<open>table_empty\<close> the call does not return (\<open>None\<close>), so it does not return
  \<^verbatim>\<open>NULL\<close> (\<open>Some None\<close>).
\<close>

theorem rand_obj_empty_table_never_returns:
  "concurrent_chained_hashtable_rand_obj rnd_count table_empty = None
   \<and> concurrent_chained_hashtable_rand_obj rnd_count table_empty \<noteq> Some None"
  using rand_obj_no_hit[of table_empty rnd_count] by (simp add: table_empty_def)

text \<open>
  Claim C6, amended. \<^verbatim>\<open>random_obj\<close> probes the buckets selected by the successive
  random values until it meets a non-empty one, however many probes that takes, and
  returns the head of that bucket; when none of the probed buckets is non-empty (in
  particular on an empty table) it does not return; it never returns \<^verbatim>\<open>NULL\<close>.
\<close>

theorem rand_obj_probes_until_nonempty:
  "((\<forall>j<k. ptr_table ht (rnd j AND hashmask (hashpower ht)) = None)
      \<and> ptr_table ht (rnd k AND hashmask (hashpower ht)) \<noteq> None \<longrightarrow>
      concurrent_chained_hashtable_rand_obj rnd ht = Some (ptr_table ht (rnd k AND hashmask (hashpower ht))))
   \<and> ((\<forall>j. ptr_table ht (rnd j AND hashmask (hashpower ht)) = None) \<longrightarrow>
      concurrent_chained_hashtable_rand_obj rnd ht = None)
   \<and> concurrent_chained_hashtable_rand_obj rnd ht \<noteq> Some None"
proof (intro conjI impI)
  assume "(\<forall>j<k. ptr_table ht (rnd j AND hashmask (hashpower ht)) = None)
      \<and> ptr_table ht (rnd k AND hashmask (hashpower ht)) \<noteq> None"
  then show "concurrent_chained_hashtable_rand_obj rnd ht = Some (ptr_table ht (rnd k AND hashmask (hashpower ht)))"
    using rand_obj_first_hit[of k ht rnd] by blast
next
  assume "\<forall>j. ptr_table ht (rnd j AND hashmask (hashpower ht)) = None"
  then show "concurrent_chained_hashtable_rand_obj rnd ht = None" by (rule rand_obj_no_hit)
next
  show "concurrent_chained_hashtable_rand_obj rnd ht \<noteq> Some None"
    using rand_probe_returns_nonempty[of rnd ht 1 "rnd 0 AND hashmask (hashpower ht)" None]
    by (auto simp: concurrent_chained_hashtable_rand_obj_def)
qed

theorem rand_obj_probes_until_nonempty_witness:
  "concurrent_chained_hashtable_rand_obj rnd_count table_sparse = Some (Some 1)
   \<and> ptr_table table_sparse (rnd_count 0 AND hashmask 4) = None
   \<and> ptr_table table_sparse (rnd_count 1 AND hashmask 4) = None
   \<and> ptr_table table_sparse (rnd_count 2 AND hashmask 4) = None
   \<and> ptr_table table_sparse (rnd_count 3 AND hashmask 4) = Some 1
   \<and> concurrent_chained_hashtable_rand_obj rnd_count table_empty = None"
proof -
  have e: "\<forall>j<3. ptr_table table_sparse (rnd_count j AND hashmask (hashpower table_sparse)) = None"
  proof (intro allI impI)
    fix j :: nat assume "j < 3"
    then have "j = 0 \<or> j = 1 \<or> j = 2" by arith
    then show "ptr_table table_sparse (rnd_count j AND hashmask (hashpower table_sparse)) = None"
      by (auto simp: table_sparse_def rnd_count_def mask4)
  qed
  have f: "ptr_table table_sparse (rnd_count 3 AND hashmask (hashpower table_sparse)) \<noteq> None"
    by (simp add: table_sparse_def rnd_count_def mask4)
  have g: "\<forall>j. ptr_table table_empty (rnd_count j AND hashmask (hashpower table_empty)) = None"
    by (simp add: table_empty_def)
  from rand_obj_probes_until_nonempty[of 3 table_sparse rnd_count] e f
  have 1: "concurrent_chained_hashtable_rand_obj rnd_count table_sparse = Some (Some 1)"
    by (simp add: table_sparse_def rnd_count_def mask4)
  from rand_obj_probes_until_nonempty[of 0 table_empty rnd_count] g
  have 2: "concurrent_chained_hashtable_rand_obj rnd_count table_empty = None" by blast
  show ?thesis using 1 2 by (simp add: table_sparse_def rnd_count_def mask4)
qed

text \<open>
  Claim C7. On a table whose bucket for id \<open>k\<close> holds a \<^verbatim>\<open>NULL\<close>-terminated chain:
  inserting a node \<open>p\<close> with id \<open>k\<close> returns, and a find of \<open>k\<close> right afterwards
  returns the address \<open>p\<close> itself; when the ids in the chain are pairwise different (the
  invariant that insert maintains by replacing), deleting \<open>k\<close> returns, and a find of
  \<open>k\<close> right afterwards returns \<^verbatim>\<open>NULL\<close>.
\<close>

theorem find_after_insert_and_after_delete:
  assumes "chain h (ptr_table ht (bucket_of hashf ht k)) as"
  shows "(obj_id (h p) = k \<longrightarrow>
            (\<exists>r h' ht'. concurrent_chained_hashtable_insert_obj hashf h ht p = Some (r, h', ht')
               \<and> concurrent_chained_hashtable_find_obj_id hashf h' ht' k = Some (Some p)))
       \<and> (distinct (map (\<lambda>a. obj_id (h a)) as) \<longrightarrow>
            (\<exists>r h' ht'. concurrent_chained_hashtable_delete_obj_id hashf h ht k = Some (r, h', ht')
               \<and> concurrent_chained_hashtable_find_obj_id hashf h' ht' k = Some None))"
  using assms find_after_insert[of h ht hashf p as] find_after_delete[of h ht hashf k as]
  by blast

theorem find_after_insert_and_after_delete_witness:
  "(\<exists>r h' ht'. concurrent_chained_hashtable_insert_obj id heap_ex table_ex 3 = Some (r, h', ht')
       \<and> concurrent_chained_hashtable_find_obj_id id h' ht' 7 = Some (Some 3))
   \<and> (\<exists>r h' ht'. concurrent_chained_hashtable_delete_obj_id id heap_ex table_ex 7 = Some (r, h', ht')
       \<and> concurrent_chained_hashtable_find_obj_id id h' ht' 7 = Some None)"
  using find_after_insert_and_after_delete[of heap_ex table_ex id 7 "[1, 2]" 3]
  by (simp add: bucket_ex heap_ex_simps table_ex_simps)

text \<open>
  Claim C9. When no node of the bucket chain of \<open>k\<close> carries the id \<open>k\<close>, the delete
  returns \<^verbatim>\<open>NULL\<close> and the heap and the table are the ones it was given: the object
  counter, every bucket head and every field of every node are unchanged.
\<close>

theorem delete_absent_id_changes_nothing:
  assumes "chain h (ptr_table ht (bucket_of hashf ht k)) as"
    and "\<forall>a\<in>set as. obj_id (h a) \<noteq> k"
  shows "concurrent_chained_hashtable_delete_obj_id hashf h ht k = Some (None, h, ht)"
  using assms by (rule delete_absent)

theorem delete_absent_id_changes_nothing_witness:
  "concurrent_chained_hashtable_delete_obj_id id heap_ex table_ex 9 = Some (None, heap_ex, table_ex)"
  using delete_absent_id_changes_nothing[of heap_ex table_ex id 9 "[1, 2]"]
  by (simp add: bucket_ex heap_ex_simps table_ex_simps)

text \<open>
  Claim C10. After any run of find, insert and delete calls, every node the run
  inserted, replaced or removed has \<^verbatim>\<open>in_cache = false\<close>, and no node has the flag
  set that had it clear before the run: the hash table never sets the flag to true.
  A run of the single call \<open>Op_insert p\<close> handles \<open>p\<close> and the replaced node, a run of
  the single call \<open>Op_delete k\<close> the removed node.
\<close>

theorem hashtable_ops_leave_in_cache_false:
  assumes "run_ops hashf ops h ht = Some (h', ht', ts)"
  shows "(\<forall>a\<in>set ts. \<not> in_cache (h' a)) \<and> (\<forall>a. in_cache (h' a) \<longrightarrow> in_cache (h a))"
  using assms by (rule run_ops_in_cache)

theorem hashtable_ops_leave_in_cache_false_witness:
  "\<exists>h' ht'. run_ops id [Op_insert 3, Op_insert 4, Op_delete 5, Op_find 9] heap_ex table_ex
       = Some (h', ht', [3, 2, 4, 1])
     \<and> in_cache (heap_ex 1) \<and> in_cache (heap_ex 2) \<and> in_cache (heap_ex 3) \<and> in_cache (heap_ex 4)
     \<and> \<not> in_cache (h' 3) \<and> \<not> in_cache (h' 2) \<and> \<not> in_cache (h' 4) \<and> \<not> in_cache (h' 1)"
proof -
  have "\<exists>h' ht'. run_ops id [Op_insert 3, Op_insert 4, Op_delete 5, Op_find 9] heap_ex table_ex
       = Some (h', ht', [3, 2, 4, 1])"
    by (simp add: concurrent_chained_hashtable_insert_obj_def concurrent_chained_hashtable_delete_obj_id_def
      concurrent_chained_hashtable_find_obj_id_def find_pointer_locked_def walk.simps
      bucket_of_def table_ex_def heap_ex_def hashmask_def hashsize_def cache_obj_set_in_cache_def)
  then obtain h' ht' where r: "run_ops id [Op_insert 3, Op_insert 4, Op_delete 5, Op_find 9] heap_ex table_ex
       = Some (h', ht', [3, 2, 4, 1])" by blast
  from hashtable_ops_leave_in_cache_false[OF r] r show ?thesis by (simp add: heap_ex_simps)
qed

section \<open>The segmented LRU policy\<close>

text \<open>
  \<^verbatim>\<open>SLRU.c\<close> keeps \<^verbatim>\<open>n_seg\<close> LRU caches, the tiers, in the array \<^verbatim>\<open>LRUs\<close>; tier 0
  is the coldest. A cache is the struct \<^verbatim>\<open>cache_t\<close>; an LRU tier adds its recency queue
  (\<^verbatim>\<open>q_head\<close> ... \<^verbatim>\<open>q_tail\<close>, here the list \<open>q_list\<close> with the most recently used
  object first) and the SLRU cache adds the array of tiers, whose length is
  \<^verbatim>\<open>n_seg\<close>. The policy is single-threaded. A fault is a run that does not complete in
  C: an eviction from an empty tier, an array access outside \<^verbatim>\<open>LRUs\<close>, a division by
  zero.
\<close>

datatype cache_ck_res_e = cache_ck_hit | cache_ck_miss | cache_ck_expired

datatype fault = evict_from_empty | tier_out_of_range | division_by_zero

record request_t =
  req_obj_id :: obj_id_t
  req_obj_size :: nat

record cache_t =
  cache_size :: nat
  occupied_size :: nat
  per_obj_overhead :: nat

record LRU_cache_t = cache_t +
  q_list :: "cache_obj_t list"

record SLRU_cache_t = cache_t +
  LRUs :: "LRU_cache_t list"

text \<open>
  Modelled from the spec: the struct of common parameters is declared outside the
  verified sources; the interface section gives it the fields \<^verbatim>\<open>cache_size\<close> and
  \<^verbatim>\<open>per_obj_overhead\<close> (\<^verbatim>\<open>hashpower\<close> and \<^verbatim>\<open>default_ttl\<close> play no role here).
\<close>

record common_cache_params_t =
  param_cache_size :: nat
  param_per_obj_overhead :: nat

definition n_seg :: "SLRU_cache_t \<Rightarrow> nat" where
  "n_seg cache = length (LRUs cache)"

definition set_LRU :: "SLRU_cache_t \<Rightarrow> nat \<Rightarrow> LRU_cache_t \<Rightarrow> SLRU_cache_t" where
  "set_LRU cache i t = cache\<lparr>LRUs := (LRUs cache)[i := t]\<rparr>"

subsection \<open>The LRU tier\<close>

text \<open>
  Modelled from the spec: \<^verbatim>\<open>LRU.c\<close> and the object helpers are not among the verified
  sources. The definitions of this subsection follow the contract of the LRU primitive:
  \<^item> \<^verbatim>\<open>check\<close> returns Hit, Miss or Expired; on Hit with \<^verbatim>\<open>update_recency\<close> the matched
    node moves to the MRU end. Expiry is the boolean signal \<open>expired\<close> of the stored
    object; an object created from a request is not expired.
  \<^item> \<^verbatim>\<open>insert\<close> assumes space has been made, places the node at the MRU end and
    updates \<^verbatim>\<open>occupied_size\<close>; every size accounting adds \<^verbatim>\<open>per_obj_overhead\<close>.
  \<^item> \<^verbatim>\<open>evict\<close> removes the LRU-end node, hands it to the caller and updates
    \<^verbatim>\<open>occupied_size\<close>. The contract is silent on an empty tier, where there is no
    LRU-end node to remove: the model reports the fault \<open>evict_from_empty\<close>.
  \<^item> \<^verbatim>\<open>remove\<close> unlinks by \<^verbatim>\<open>obj_id\<close> and only warns when the id is absent.
  \<^item> The occupancy is a natural number: taking out more than it holds leaves 0. Under the
    accounting invariant \<open>tier_ok\<close> below, every subtraction is exact.
  \<^item> \<^verbatim>\<open>copy_cache_obj_to_request\<close> fills a request from the id and size of an object.
\<close>

text \<open>
  Modelled from the spec: \<^verbatim>\<open>create_cache_obj_from_request\<close> is defined outside the verified
  sources. A node created for a request carries the id and the size of the request, is a
  resident (\<^verbatim>\<open>in_cache\<close>) and is not expired.
\<close>

definition create_cache_obj_from_request :: "request_t \<Rightarrow> cache_obj_t" where
  "create_cache_obj_from_request req =
     \<lparr>obj_id = req_obj_id req, obj_size = req_obj_size req, in_cache = True, hash_next = None,
      expired = False\<rparr>"

text \<open>
  Modelled from the spec: \<^verbatim>\<open>copy_cache_obj_to_request\<close> is defined outside the verified
  sources. The fields of the evicted object that drive the re-insert are its id and its
  size.
\<close>

definition copy_cache_obj_to_request :: "cache_obj_t \<Rightarrow> request_t" where
  "copy_cache_obj_to_request cache_obj =
     \<lparr>req_obj_id = obj_id cache_obj, req_obj_size = obj_size cache_obj\<rparr>"

text \<open>
  Modelled from the spec: \<^verbatim>\<open>LRU_init\<close> is defined in \<^verbatim>\<open>LRU.c\<close>, outside the verified
  sources. A new tier is empty and has the capacity and the overhead of the parameters it
  is given.
\<close>

definition LRU_init :: "common_cache_params_t \<Rightarrow> LRU_cache_t" where
  "LRU_init ccache_params =
     \<lparr>cache_size = param_cache_size ccache_params, occupied_size = 0,
      per_obj_overhead = param_per_obj_overhead ccache_params, q_list = []\<rparr>"

text \<open>
  Modelled from the spec: \<^verbatim>\<open>LRU_check\<close> is defined in \<^verbatim>\<open>LRU.c\<close>, outside the verified
  sources. It looks the id up; an absent id is a Miss, an expired object is Expired, and
  a Hit moves the object to the MRU end when the recency is to be updated.
\<close>

definition LRU_check :: "LRU_cache_t \<Rightarrow> request_t \<Rightarrow> bool \<Rightarrow> cache_ck_res_e \<times> LRU_cache_t" where
  "LRU_check cache req update_cache =
     (case find (\<lambda>ob. obj_id ob = req_obj_id req) (q_list cache) of
        None \<Rightarrow> (cache_ck_miss, cache)
      | Some ob \<Rightarrow>
          if expired ob then (cache_ck_expired, cache)
          else (cache_ck_hit,
                if update_cache then cache\<lparr>q_list := ob # remove1 ob (q_list cache)\<rparr> else cache))"

text \<open>
  Modelled from the spec: \<^verbatim>\<open>LRU_insert\<close> is defined in \<^verbatim>\<open>LRU.c\<close>, outside the verified
  sources. The new node goes to the MRU end, and its size plus the overhead is added to
  the occupancy; no space is made.
\<close>

definition LRU_insert :: "LRU_cache_t \<Rightarrow> request_t \<Rightarrow> LRU_cache_t" where
  "LRU_insert cache req =
     cache\<lparr>q_list := create_cache_obj_from_request req # q_list cache,
           occupied_size := occupied_size cache + (req_obj_size req + per_obj_overhead cache)\<rparr>"

text \<open>
  Modelled from the spec: \<^verbatim>\<open>LRU_evict\<close> is defined in \<^verbatim>\<open>LRU.c\<close>, outside the verified
  sources. The LRU-end node is removed and handed to the caller, and its size plus the
  overhead leaves the occupancy; on an empty tier there is no node to remove, which is
  the fault \<open>evict_from_empty\<close>.
\<close>

definition LRU_evict :: "LRU_cache_t \<Rightarrow> fault + (cache_obj_t \<times> LRU_cache_t)" where
  "LRU_evict cache =
     (if q_list cache = [] then Inl evict_from_empty
      else Inr (last (q_list cache),
                cache\<lparr>q_list := butlast (q_list cache),
                      occupied_size := occupied_size cache
                         - (obj_size (last (q_list cache)) + per_obj_overhead cache)\<rparr>))"

text \<open>
  Modelled from the spec: \<^verbatim>\<open>LRU_remove\<close> is defined in \<^verbatim>\<open>LRU.c\<close>, outside the verified
  sources. The node with the id is unlinked and its size plus the overhead leaves the
  occupancy; an absent id only draws a warning and changes nothing.
\<close>

definition LRU_remove :: "LRU_cache_t \<Rightarrow> obj_id_t \<Rightarrow> LRU_cache_t" where
  "LRU_remove cache oid =
     (case find (\<lambda>ob. obj_id ob = oid) (q_list cache) of
        None \<Rightarrow> cache
      | Some ob \<Rightarrow>
          cache\<lparr>q_list := remove1 ob (q_list cache),
                occupied_size := occupied_size cache - (obj_size ob + per_obj_overhead cache)\<rparr>)"

subsection \<open>Cooling\<close>

text \<open>
  \<^verbatim>\<open>SLRU_cool\<close> evicts the LRU-end object of tier \<open>i\<close> and, unless \<open>i = 0\<close>, inserts it
  into tier \<open>i - 1\<close> after cooling that tier until the object fits. The two loops
  \<^verbatim>\<open>while (LRUs[j]->occupied_size + size + per_obj_overhead > LRUs[j]->cache_size)
  SLRU_cool(cache, req, j)\<close>, one in \<^verbatim>\<open>SLRU_cool\<close> (with \<open>j = i - 1\<close> and the size of
  the evicted object) and one in \<^verbatim>\<open>SLRU_check\<close> (with \<open>j = i + 1\<close> and the size of the
  request), are the function \<open>SLRU_cool_until_fits\<close>. The request passed along the calls
  is not read by the tier's eviction and the evicted object is copied into the
  function's own request, so the caller's request is unchanged.
\<close>

function SLRU_cool :: "SLRU_cache_t \<Rightarrow> nat \<Rightarrow> fault + SLRU_cache_t"
  and SLRU_cool_until_fits :: "SLRU_cache_t \<Rightarrow> nat \<Rightarrow> nat \<Rightarrow> fault + SLRU_cache_t" where
  "SLRU_cool cache i =
     (if n_seg cache \<le> i then Inl tier_out_of_range
      else case LRU_evict (LRUs cache ! i) of
             Inl e \<Rightarrow> Inl e
           | Inr (evicted_obj, t) \<Rightarrow>
               if i = 0 then Inr (set_LRU cache i t)
               else (case SLRU_cool_until_fits (set_LRU cache i t) (i - 1) (obj_size evicted_obj) of
                       Inl e \<Rightarrow> Inl e
                     | Inr cache2 \<Rightarrow>
                         Inr (set_LRU cache2 (i - 1)
                                (LRU_insert (LRUs cache2 ! (i - 1))
                                   (copy_cache_obj_to_request evicted_obj)))))"
| "SLRU_cool_until_fits cache j sz =
     (if n_seg cache \<le> j then Inl tier_out_of_range
      else if occupied_size (LRUs cache ! j) + sz + per_obj_overhead cache > cache_size (LRUs cache ! j)
      then (case SLRU_cool cache j of
              Inl e \<Rightarrow> Inl e
            | Inr cache1 \<Rightarrow> SLRU_cool_until_fits cache1 j sz)
      else Inr cache)"
  by pat_completeness auto

lemma n_seg_set_LRU [simp]: "n_seg (set_LRU cache i t) = n_seg cache"
  by (simp add: n_seg_def set_LRU_def)

lemma LRUs_set_LRU:
  "LRUs (set_LRU cache i t) ! k = (if k = i \<and> i < n_seg cache then t else LRUs cache ! k)"
  by (cases "i < length (LRUs cache)") (auto simp: n_seg_def set_LRU_def nth_list_update list_update_beyond)

lemma LRU_evict_shorter:
  "LRU_evict t = Inr (ob, t') \<Longrightarrow> length (q_list t') < length (q_list t)"
  by (auto simp: LRU_evict_def split: if_splits)

lemma SLRU_cool_dom_frame:
  "SLRU_cool_SLRU_cool_until_fits_dom (Inl (cache, i)) \<Longrightarrow>
     (\<forall>c'. SLRU_cool cache i = Inr c' \<longrightarrow>
        n_seg c' = n_seg cache \<and> (\<forall>k>i. LRUs c' ! k = LRUs cache ! k) \<and>
        length (q_list (LRUs c' ! i)) < length (q_list (LRUs cache ! i)))"
  "SLRU_cool_SLRU_cool_until_fits_dom (Inr (cache, j, sz)) \<Longrightarrow>
     (\<forall>c'. SLRU_cool_until_fits cache j sz = Inr c' \<longrightarrow>
        n_seg c' = n_seg cache \<and> (\<forall>k>j. LRUs c' ! k = LRUs cache ! k))"
proof (induct rule: SLRU_cool_SLRU_cool_until_fits.pinduct)
  case (1 cache i)
  show ?case
  proof (intro allI impI)
    fix c' assume r: "SLRU_cool cache i = Inr c'"
    from r "1.hyps"(1) have i: "i < n_seg cache"
      by (auto simp: SLRU_cool.psimps split: if_splits)
    from r "1.hyps"(1) i obtain ev t where ev: "LRU_evict (LRUs cache ! i) = Inr (ev, t)"
      by (auto simp: SLRU_cool.psimps split: if_splits sum.splits)
    show "n_seg c' = n_seg cache \<and> (\<forall>k>i. LRUs c' ! k = LRUs cache ! k) \<and>
        length (q_list (LRUs c' ! i)) < length (q_list (LRUs cache ! i))"
    proof (cases "i = 0")
      case True
      with r "1.hyps"(1) i ev have "c' = set_LRU cache i t"
        by (auto simp: SLRU_cool.psimps)
      then show ?thesis using i LRU_evict_shorter[OF ev] by (simp add: LRUs_set_LRU)
    next
      case False
      with r "1.hyps"(1) i ev obtain c2 where
        c2: "SLRU_cool_until_fits (set_LRU cache i t) (i - 1) (obj_size ev) = Inr c2"
        and c': "c' = set_LRU c2 (i - 1) (LRU_insert (LRUs c2 ! (i - 1)) (copy_cache_obj_to_request ev))"
        by (auto simp: SLRU_cool.psimps split: sum.splits)
      from "1.hyps"(2)[OF _ ev refl False] i c2
      have ih: "n_seg c2 = n_seg cache" "\<forall>k>i - 1. LRUs c2 ! k = LRUs (set_LRU cache i t) ! k"
        by auto
      from ih(2) False have "LRUs c2 ! i = t" "\<forall>k>i. LRUs c2 ! k = LRUs cache ! k"
        using i by (auto simp: LRUs_set_LRU)
      then show ?thesis using c' ih(1) i False LRU_evict_shorter[OF ev]
        by (auto simp: LRUs_set_LRU)
    qed
  qed
next
  case (2 cache j sz)
  show ?case
  proof (intro allI impI)
    fix c' assume r: "SLRU_cool_until_fits cache j sz = Inr c'"
    from r "2.hyps"(1) have j: "\<not> n_seg cache \<le> j"
      by (auto simp: SLRU_cool_until_fits.psimps split: if_splits)
    show "n_seg c' = n_seg cache \<and> (\<forall>k>j. LRUs c' ! k = LRUs cache ! k)"
    proof (cases "cache_size (LRUs cache ! j) < occupied_size (LRUs cache ! j) + sz + per_obj_overhead cache")
      case False
      with r "2.hyps"(1) j show ?thesis by (auto simp: SLRU_cool_until_fits.psimps)
    next
      case True
      with r "2.hyps"(1) j obtain c1 where c1: "SLRU_cool cache j = Inr c1"
        and c': "SLRU_cool_until_fits c1 j sz = Inr c'"
        by (auto simp: SLRU_cool_until_fits.psimps split: sum.splits)
      from "2.hyps"(2)[OF j True] c1 have a: "n_seg c1 = n_seg cache" "\<forall>k>j. LRUs c1 ! k = LRUs cache ! k"
        by auto
      from "2.hyps"(3)[OF j True c1] c' have b: "n_seg c' = n_seg c1" "\<forall>k>j. LRUs c' ! k = LRUs c1 ! k"
        by auto
      from a b show ?thesis by simp
    qed
  qed
qed

lemma SLRU_cool_dom_shorter:
  "SLRU_cool_SLRU_cool_until_fits_dom (Inl (cache, j)) \<Longrightarrow> SLRU_cool cache j = Inr b \<Longrightarrow>
   length (q_list (LRUs b ! j)) < length (q_list (LRUs cache ! j))"
  using SLRU_cool_dom_frame(1)[of cache j] by blast

termination SLRU_cool
  by (relation "inv_image (less_than <*lex*> less_than)
    (\<lambda>x. case x of Inl (cache, i) \<Rightarrow> (2 * i, 0)
                   | Inr (cache, j, sz) \<Rightarrow> (2 * j + 1, length (q_list (LRUs cache ! j))))")
     (auto simp: SLRU_cool_dom_shorter)

subsection \<open>Check, insert, evict, get and init\<close>

text \<open>
  \<^verbatim>\<open>SLRU_evict\<close> hands the eviction to tier 0; the generic LRU eviction it calls is the
  tier's \<^verbatim>\<open>evict\<close>. The \<^verbatim>\<open>for\<close> loops of \<^verbatim>\<open>SLRU_check\<close> and \<^verbatim>\<open>SLRU_insert\<close> are
  \<open>SLRU_check_from\<close> and \<open>SLRU_insert_from\<close>, started at tier 0; the \<^verbatim>\<open>while\<close> loop of
  \<^verbatim>\<open>SLRU_insert\<close> is \<open>SLRU_evict_until_fits\<close>. \<^verbatim>\<open>SLRU_check\<close> promotes on every hit below
  the top tier, whatever \<^verbatim>\<open>update_cache\<close> is. In \<^verbatim>\<open>SLRU_init\<close> the cache struct is built
  from the parameters before the cache size is divided by \<^verbatim>\<open>n_seg\<close>, the tiers after.

  Modelled from the spec: \<^verbatim>\<open>cache_struct_init\<close> is not among the verified sources; the
  cache it returns records the \<^verbatim>\<open>cache_size\<close> and \<^verbatim>\<open>per_obj_overhead\<close> of the common
  parameters it is given and is empty.
\<close>

definition SLRU_evict :: "SLRU_cache_t \<Rightarrow> fault + (cache_obj_t \<times> SLRU_cache_t)" where
  "SLRU_evict cache =
     (if n_seg cache = 0 then Inl tier_out_of_range
      else case LRU_evict (LRUs cache ! 0) of
             Inl e \<Rightarrow> Inl e
           | Inr (evicted_obj, t) \<Rightarrow> Inr (evicted_obj, set_LRU cache 0 t))"

function SLRU_check_from ::
  "SLRU_cache_t \<Rightarrow> request_t \<Rightarrow> bool \<Rightarrow> nat \<Rightarrow> fault + (cache_ck_res_e \<times> SLRU_cache_t)" where
  "SLRU_check_from cache req update_cache i =
     (if i < n_seg cache then
        (case LRU_check (LRUs cache ! i) req update_cache of
           (ret, t) \<Rightarrow>
             if ret = cache_ck_hit then
               (if i \<noteq> n_seg cache - 1 then
                  (case SLRU_cool_until_fits
                          (set_LRU (set_LRU cache i t) i (LRU_remove t (req_obj_id req)))
                          (i + 1) (req_obj_size req) of
                     Inl e \<Rightarrow> Inl e
                   | Inr cache2 \<Rightarrow>
                       Inr (cache_ck_hit,
                            set_LRU cache2 (i + 1) (LRU_insert (LRUs cache2 ! (i + 1)) req)))
                else Inr (cache_ck_hit, set_LRU cache i t))
             else if ret = cache_ck_expired then Inr (cache_ck_expired, set_LRU cache i t)
             else SLRU_check_from (set_LRU cache i t) req update_cache (i + 1))
      else Inr (cache_ck_miss, cache))"
  by pat_completeness auto
termination
  by (relation "measure (\<lambda>(cache, req, update_cache, i). n_seg cache - i)") auto

definition SLRU_check ::
  "SLRU_cache_t \<Rightarrow> request_t \<Rightarrow> bool \<Rightarrow> fault + (cache_ck_res_e \<times> SLRU_cache_t)" where
  "SLRU_check cache req update_cache = SLRU_check_from cache req update_cache 0"

function SLRU_evict_until_fits :: "SLRU_cache_t \<Rightarrow> request_t \<Rightarrow> fault + SLRU_cache_t" where
  "SLRU_evict_until_fits cache req =
     (if n_seg cache = 0 then Inl tier_out_of_range
      else if occupied_size (LRUs cache ! 0) + req_obj_size req + per_obj_overhead cache
                > cache_size (LRUs cache ! 0)
      then (case SLRU_evict cache of
              Inl e \<Rightarrow> Inl e
            | Inr (evicted_obj, cache1) \<Rightarrow> SLRU_evict_until_fits cache1 req)
      else Inr cache)"
  by pat_completeness auto
termination
proof (relation "measure (\<lambda>(cache, req). length (q_list (LRUs cache ! 0)))")
  fix cache :: SLRU_cache_t and req :: request_t and x2 x y
  assume n: "n_seg cache \<noteq> 0" and e: "SLRU_evict cache = Inr x2" and x: "(x, y) = x2"
  from n e x obtain t where t: "LRU_evict (LRUs cache ! 0) = Inr (x, t)" and y: "y = set_LRU cache 0 t"
    by (auto simp: SLRU_evict_def split: sum.splits)
  from LRU_evict_shorter[OF t] y n
  show "((y, req), cache, req) \<in> measure (\<lambda>(cache, req). length (q_list (LRUs cache ! 0)))"
    by (simp add: LRUs_set_LRU)
qed simp

function SLRU_insert_from :: "SLRU_cache_t \<Rightarrow> request_t \<Rightarrow> nat \<Rightarrow> fault + SLRU_cache_t" where
  "SLRU_insert_from cache req i =
     (if i < n_seg cache then
        (if occupied_size (LRUs cache ! i) + req_obj_size req + per_obj_overhead cache
              \<le> cache_size (LRUs cache ! i)
         then Inr (set_LRU cache i (LRU_insert (LRUs cache ! i) req))
         else SLRU_insert_from cache req (i + 1))
      else (case SLRU_evict_until_fits cache req of
              Inl e \<Rightarrow> Inl e
            | Inr cache1 \<Rightarrow> Inr (set_LRU cache1 0 (LRU_insert (LRUs cache1 ! 0) req))))"
  by pat_completeness auto
termination
  by (relation "measure (\<lambda>(cache, req, i). n_seg cache - i)") auto

definition SLRU_insert :: "SLRU_cache_t \<Rightarrow> request_t \<Rightarrow> fault + SLRU_cache_t" where
  "SLRU_insert cache req = SLRU_insert_from cache req 0"

definition SLRU_get :: "SLRU_cache_t \<Rightarrow> request_t \<Rightarrow> fault + (cache_ck_res_e \<times> SLRU_cache_t)" where
  "SLRU_get cache req =
     (case SLRU_check cache req True of
        Inl e \<Rightarrow> Inl e
      | Inr (ret, cache1) \<Rightarrow>
          if ret = cache_ck_miss \<or> ret = cache_ck_expired then
            (if req_obj_size req + per_obj_overhead cache1 > cache_size cache1 then Inr (ret, cache1)
             else (case SLRU_insert cache1 req of
                     Inl e \<Rightarrow> Inl e
                   | Inr cache2 \<Rightarrow> Inr (ret, cache2)))
          else Inr (ret, cache1))"

definition SLRU_init :: "common_cache_params_t \<Rightarrow> nat \<Rightarrow> fault + SLRU_cache_t" where
  "SLRU_init ccache_params n_seg_param =
     (if n_seg_param = 0 then Inl division_by_zero
      else Inr \<lparr>cache_size = param_cache_size ccache_params, occupied_size = 0,
                per_obj_overhead = param_per_obj_overhead ccache_params,
                LRUs = replicate n_seg_param
                   (LRU_init (ccache_params\<lparr>param_cache_size :=
                                param_cache_size ccache_params div n_seg_param\<rparr>))\<rparr>)"

subsection \<open>Invariants of the tiers\<close>

text \<open>
  \<open>tier_fits\<close> is the test the code repeats before every insertion into a tier.
  \<open>tier_ok\<close> is the accounting invariant of a tier of an SLRU cache with overhead
  \<open>ovh\<close> and tier capacity \<open>cap\<close>: the tier uses the cache's overhead, its occupancy is
  the sum of the sizes of its residents plus one overhead each, and it is within its
  capacity. \<open>SLRU_ok\<close> holds when every tier is in this state for the same capacity, as
  after \<^verbatim>\<open>SLRU_init\<close>. \<open>keep_mru t m\<close> is tier \<open>t\<close> after evicting all but its \<open>m\<close> most
  recently used objects.
\<close>

definition tier_fits :: "SLRU_cache_t \<Rightarrow> nat \<Rightarrow> nat \<Rightarrow> bool" where
  "tier_fits cache i sz \<longleftrightarrow>
     occupied_size (LRUs cache ! i) + sz + per_obj_overhead cache \<le> cache_size (LRUs cache ! i)"

definition tier_ok :: "nat \<Rightarrow> nat \<Rightarrow> LRU_cache_t \<Rightarrow> bool" where
  "tier_ok ovh cap t \<longleftrightarrow>
     per_obj_overhead t = ovh \<and> cache_size t = cap \<and>
     occupied_size t = sum_list (map (\<lambda>ob. obj_size ob + ovh) (q_list t)) \<and>
     occupied_size t \<le> cap"

definition SLRU_ok :: "SLRU_cache_t \<Rightarrow> nat \<Rightarrow> bool" where
  "SLRU_ok cache cap \<longleftrightarrow> list_all (tier_ok (per_obj_overhead cache) cap) (LRUs cache)"

definition resident_ids :: "SLRU_cache_t \<Rightarrow> obj_id_t list" where
  "resident_ids cache = concat (map (\<lambda>t. map obj_id (q_list t)) (LRUs cache))"

definition same_params :: "SLRU_cache_t \<Rightarrow> SLRU_cache_t \<Rightarrow> bool" where
  "same_params c c' \<longleftrightarrow>
     n_seg c' = n_seg c \<and> cache_size c' = cache_size c \<and> per_obj_overhead c' = per_obj_overhead c"

definition keep_mru :: "LRU_cache_t \<Rightarrow> nat \<Rightarrow> LRU_cache_t" where
  "keep_mru t m =
     t\<lparr>q_list := take m (q_list t),
       occupied_size := occupied_size t
          - sum_list (map (\<lambda>ob. obj_size ob + per_obj_overhead t) (drop m (q_list t)))\<rparr>"

subsection \<open>Demotion in closed form\<close>

text \<open>
  The outcome of cooling can be stated without the loops. The functions of this
  subsection are not in \<^verbatim>\<open>SLRU.c\<close>; they describe a tier and the tiers below it once a
  batch of objects has been moved down into it, and the properties of \<^verbatim>\<open>SLRU_cool\<close>
  compare the code with them.
  \<^item> \<open>demoted_obj ob\<close> is the node that \<^verbatim>\<open>LRU_insert\<close> creates for the request
    which \<^verbatim>\<open>copy_cache_obj_to_request\<close> fills from \<open>ob\<close>.
  \<^item> \<open>tier_weight ovh obs\<close> is the occupancy of the objects \<open>obs\<close>: their sizes plus
    one overhead each.
  \<^item> \<open>fit_mru ovh room obs\<close> is the longest front part of \<open>obs\<close> whose occupancy is
    at most \<open>room\<close>.
  \<^item> \<open>tier_receive t obs\<close> is tier \<open>t\<close> after the objects \<open>obs\<close>, the one moved last
    first, have entered at its MRU end: the tier keeps the longest MRU part of the new
    queue that is within its capacity. \<open>tier_overflow t obs\<close> is the rest of the new
    queue, the objects that had to leave the tier.
  \<^item> \<open>demote cache j obs\<close> moves \<open>obs\<close> from tier \<open>j\<close> into tier \<open>j - 1\<close> and the
    overflow of every tier into the tier below it; what leaves tier 0 is discarded.
\<close>

definition demoted_obj :: "cache_obj_t \<Rightarrow> cache_obj_t" where
  "demoted_obj ob = create_cache_obj_from_request (copy_cache_obj_to_request ob)"

definition tier_weight :: "nat \<Rightarrow> cache_obj_t list \<Rightarrow> nat" where
  "tier_weight ovh obs = sum_list (map (\<lambda>ob. obj_size ob + ovh) obs)"

fun fit_mru :: "nat \<Rightarrow> nat \<Rightarrow> cache_obj_t list \<Rightarrow> cache_obj_t list" where
  "fit_mru ovh room [] = []"
| "fit_mru ovh room (ob # obs) =
     (if obj_size ob + ovh \<le> room then ob # fit_mru ovh (room - (obj_size ob + ovh)) obs else [])"

definition tier_receive :: "LRU_cache_t \<Rightarrow> cache_obj_t list \<Rightarrow> LRU_cache_t" where
  "tier_receive t obs =
     t\<lparr>q_list := fit_mru (per_obj_overhead t) (cache_size t) (map demoted_obj obs @ q_list t),
       occupied_size := tier_weight (per_obj_overhead t)
          (fit_mru (per_obj_overhead t) (cache_size t) (map demoted_obj obs @ q_list t))\<rparr>"

definition tier_overflow :: "LRU_cache_t \<Rightarrow> cache_obj_t list \<Rightarrow> cache_obj_t list" where
  "tier_overflow t obs =
     drop (length (q_list (tier_receive t obs))) (map demoted_obj obs @ q_list t)"

fun demote :: "SLRU_cache_t \<Rightarrow> nat \<Rightarrow> cache_obj_t list \<Rightarrow> SLRU_cache_t" where
  "demote cache 0 obs = cache"
| "demote cache (Suc j) obs =
     demote (set_LRU cache j (tier_receive (LRUs cache ! j) obs)) j
       (tier_overflow (LRUs cache ! j) obs)"

subsection \<open>Concrete caches\<close>

text \<open>
  \<open>cache_10_3\<close> and \<open>cache_10_2\<close> are the caches \<^verbatim>\<open>SLRU_init\<close> builds for a cache size of
  10 with three and with two tiers. \<open>cache_full\<close> has two full tiers of capacity 3,
  \<open>cache_room\<close> a full tier 0 and an empty tier 1. In \<open>cache_ttl\<close> the object with id 7
  is expired in tier 1 and also stored in tier 2.
\<close>

definition tier_empty :: "nat \<Rightarrow> LRU_cache_t" where
  "tier_empty cap = \<lparr>cache_size = cap, occupied_size = 0, per_obj_overhead = 0, q_list = []\<rparr>"

definition obj_ex :: "obj_id_t \<Rightarrow> nat \<Rightarrow> bool \<Rightarrow> cache_obj_t" where
  "obj_ex oid sz ex = \<lparr>obj_id = oid, obj_size = sz, in_cache = True, hash_next = None, expired = ex\<rparr>"


definition cache_10_2 :: SLRU_cache_t where
  "cache_10_2 = \<lparr>cache_size = 10, occupied_size = 0, per_obj_overhead = 0,
                 LRUs = [tier_empty 5, tier_empty 5]\<rparr>"

definition cache_full :: SLRU_cache_t where
  "cache_full = \<lparr>cache_size = 6, occupied_size = 0, per_obj_overhead = 0,
      LRUs = [\<lparr>cache_size = 3, occupied_size = 3, per_obj_overhead = 0,
                q_list = [obj_ex 2 1 False, obj_ex 1 2 False]\<rparr>,
              \<lparr>cache_size = 3, occupied_size = 3, per_obj_overhead = 0,
                q_list = [obj_ex 3 3 False]\<rparr>]\<rparr>"

definition cache_room :: SLRU_cache_t where
  "cache_room = \<lparr>cache_size = 6, occupied_size = 0, per_obj_overhead = 0,
      LRUs = [\<lparr>cache_size = 3, occupied_size = 3, per_obj_overhead = 0,
                q_list = [obj_ex 2 1 False, obj_ex 1 2 False]\<rparr>,
              tier_empty 3]\<rparr>"

definition cache_ttl :: SLRU_cache_t where
  "cache_ttl = \<lparr>cache_size = 9, occupied_size = 0, per_obj_overhead = 0,
      LRUs = [\<lparr>cache_size = 3, occupied_size = 1, per_obj_overhead = 0,
                q_list = [obj_ex 1 1 False]\<rparr>,
              \<lparr>cache_size = 3, occupied_size = 1, per_obj_overhead = 0,
                q_list = [obj_ex 7 1 True]\<rparr>,
              \<lparr>cache_size = 3, occupied_size = 1, per_obj_overhead = 0,
                q_list = [obj_ex 7 1 False]\<rparr>]\<rparr>"

text \<open>
  \<open>cache_hot\<close> has three full tiers of capacity 2 holding the ids 1 to 6;
  \<open>cache_hot_promoted\<close> is the same cache after the object with id 1 has moved from
  tier 0 to tier 1 and the object with id 3 has been cooled from tier 1 to tier 0.
\<close>

definition cache_hot :: SLRU_cache_t where
  "cache_hot = \<lparr>cache_size = 6, occupied_size = 0, per_obj_overhead = 0,
      LRUs = [\<lparr>cache_size = 2, occupied_size = 2, per_obj_overhead = 0,
                q_list = [create_cache_obj_from_request \<lparr>req_obj_id = 2, req_obj_size = 1\<rparr>,
                          create_cache_obj_from_request \<lparr>req_obj_id = 1, req_obj_size = 1\<rparr>]\<rparr>,
              \<lparr>cache_size = 2, occupied_size = 2, per_obj_overhead = 0,
                q_list = [create_cache_obj_from_request \<lparr>req_obj_id = 4, req_obj_size = 1\<rparr>,
                          create_cache_obj_from_request \<lparr>req_obj_id = 3, req_obj_size = 1\<rparr>]\<rparr>,
              \<lparr>cache_size = 2, occupied_size = 2, per_obj_overhead = 0,
                q_list = [create_cache_obj_from_request \<lparr>req_obj_id = 6, req_obj_size = 1\<rparr>,
                          create_cache_obj_from_request \<lparr>req_obj_id = 5, req_obj_size = 1\<rparr>]\<rparr>]\<rparr>"


subsection \<open>Tier lemmas\<close>

declare SLRU_cool.simps [simp del] SLRU_cool_until_fits.simps [simp del]
  SLRU_check_from.simps [simp del] SLRU_insert_from.simps [simp del]
  SLRU_evict_until_fits.simps [simp del]

lemmas SLRU_defs = SLRU_get_def SLRU_check_def SLRU_insert_def SLRU_evict_def SLRU_init_def
  LRU_init_def LRU_check_def LRU_insert_def LRU_evict_def LRU_remove_def n_seg_def set_LRU_def
  create_cache_obj_from_request_def copy_cache_obj_to_request_def tier_fits_def
lemmas SLRU_loops = SLRU_check_from.simps SLRU_insert_from.simps SLRU_evict_until_fits.simps
  SLRU_cool.simps SLRU_cool_until_fits.simps



lemma replicate_2: "replicate 2 x = [x, x]"
  by (simp add: numeral_2_eq_2)

lemma set_LRU_fields [simp]:
  "cache_size (set_LRU cache i t) = cache_size cache"
  "per_obj_overhead (set_LRU cache i t) = per_obj_overhead cache"
  "occupied_size (set_LRU cache i t) = occupied_size cache"
  by (simp_all add: set_LRU_def)

lemma set_LRU_same: "i < n_seg cache \<Longrightarrow> t = LRUs cache ! i \<Longrightarrow> set_LRU cache i t = cache"
  by (simp add: set_LRU_def n_seg_def)

lemma set_LRU_twice [simp]: "set_LRU (set_LRU cache i t) i t' = set_LRU cache i t'"
  by (simp add: set_LRU_def)

lemma SLRU_ok_nth: "SLRU_ok cache cap \<Longrightarrow> i < n_seg cache \<Longrightarrow> tier_ok (per_obj_overhead cache) cap (LRUs cache ! i)"
  by (simp add: SLRU_ok_def n_seg_def list_all_length)

lemma SLRU_ok_set_LRU:
  "SLRU_ok cache cap \<Longrightarrow> tier_ok (per_obj_overhead cache) cap t \<Longrightarrow> SLRU_ok (set_LRU cache i t) cap"
  using set_update_subset_insert[of "LRUs cache" i t]
  by (auto simp: SLRU_ok_def set_LRU_def list_all_iff)

lemma SLRU_init_ok:
  assumes "SLRU_init ccache_params n = Inr c"
  shows "SLRU_ok c (param_cache_size ccache_params div n) \<and> resident_ids c = []
     \<and> n_seg c = n \<and> 0 < n"
  using assms
  by (auto simp: SLRU_init_def LRU_init_def SLRU_ok_def tier_ok_def resident_ids_def n_seg_def
      list_all_iff split: if_splits)



lemma LRU_check_unchanged:
  "fst (LRU_check t req u) \<noteq> cache_ck_hit \<Longrightarrow> snd (LRU_check t req u) = t"
  by (auto simp: LRU_check_def split: option.splits)




lemma LRU_insert_ok:
  "tier_ok ovh cap t \<Longrightarrow> occupied_size t + req_obj_size req + ovh \<le> cap \<Longrightarrow>
   tier_ok ovh cap (LRU_insert t req)"
  by (auto simp: LRU_insert_def tier_ok_def create_cache_obj_from_request_def)

lemma LRU_evict_ok:
  assumes "tier_ok ovh cap t" "q_list t \<noteq> []"
  shows "\<exists>t'. LRU_evict t = Inr (last (q_list t), t') \<and> tier_ok ovh cap t' \<and>
           q_list t' = butlast (q_list t) \<and>
           occupied_size t' + (obj_size (last (q_list t)) + ovh) = occupied_size t"
proof -
  from assms(2) have "q_list t = butlast (q_list t) @ [last (q_list t)]" by simp
  then have "sum_list (map (\<lambda>ob. obj_size ob + ovh) (q_list t)) =
      sum_list (map (\<lambda>ob. obj_size ob + ovh) (butlast (q_list t))) + (obj_size (last (q_list t)) + ovh)"
    by (metis (no_types, lifting) map_append sum_list.append list.simps(8,9) sum_list.Cons sum_list.Nil add.right_neutral)
  with assms show ?thesis by (auto simp: LRU_evict_def tier_ok_def)
qed

lemma LRU_evict_Inr:
  "LRU_evict t = Inr (ob, t') \<Longrightarrow>
     q_list t \<noteq> [] \<and> ob = last (q_list t) \<and> q_list t' = butlast (q_list t) \<and>
     cache_size t' = cache_size t \<and> per_obj_overhead t' = per_obj_overhead t \<and>
     occupied_size t' = occupied_size t - (obj_size ob + per_obj_overhead t)"
  by (auto simp: LRU_evict_def split: if_splits)

subsection \<open>Cooling keeps the invariant and completes\<close>

lemma same_params_refl [simp]: "same_params c c"
  by (simp add: same_params_def)

lemma same_params_set_LRU [simp]: "same_params c (set_LRU c' i t) = same_params c c'"
  by (simp add: same_params_def)

lemma same_params_trans: "same_params a b \<Longrightarrow> same_params b c \<Longrightarrow> same_params a c"
  by (simp add: same_params_def)

lemma ids_set_LRU:
  "set (resident_ids (set_LRU c i t)) \<subseteq> set (resident_ids c) \<union> obj_id ` set (q_list t)"
  using set_update_subset_insert[of "LRUs c" i t]
  by (auto simp: resident_ids_def set_LRU_def)

lemma ids_nth: "i < n_seg c \<Longrightarrow> obj_id ` set (q_list (LRUs c ! i)) \<subseteq> set (resident_ids c)"
  by (auto simp: resident_ids_def n_seg_def intro!: bexI[of _ "LRUs c ! i"])

lemma ids_set_LRU_sub:
  "i < n_seg c \<Longrightarrow> set (q_list t) \<subseteq> set (q_list (LRUs c ! i)) \<Longrightarrow>
   set (resident_ids (set_LRU c i t)) \<subseteq> set (resident_ids c)"
  using ids_set_LRU[of c i t] ids_nth[of i c] by blast

lemma SLRU_cool_frame:
  "\<forall>c'. SLRU_cool cache i = Inr c' \<longrightarrow>
     same_params cache c' \<and> i < n_seg cache \<and> (\<forall>k>i. LRUs c' ! k = LRUs cache ! k) \<and>
     (\<exists>ev t. LRU_evict (LRUs cache ! i) = Inr (ev, t) \<and> LRUs c' ! i = t) \<and>
     set (resident_ids c') \<subseteq> set (resident_ids cache)"
  "\<forall>c'. SLRU_cool_until_fits cache j sz = Inr c' \<longrightarrow>
     same_params cache c' \<and> j < n_seg cache \<and> (\<forall>k>j. LRUs c' ! k = LRUs cache ! k) \<and>
     tier_fits c' j sz \<and>
     (\<exists>m. q_list (LRUs c' ! j) = take m (q_list (LRUs cache ! j))) \<and>
     cache_size (LRUs c' ! j) = cache_size (LRUs cache ! j) \<and>
     per_obj_overhead (LRUs c' ! j) = per_obj_overhead (LRUs cache ! j) \<and>
     set (resident_ids c') \<subseteq> set (resident_ids cache)"
proof (induct cache i and cache j sz rule: SLRU_cool_SLRU_cool_until_fits.induct)
  case (1 cache i)
  show ?case
  proof (intro allI impI)
    fix c' assume r: "SLRU_cool cache i = Inr c'"
    note r = r[unfolded SLRU_cool.simps[of cache i]]
    from r have i: "i < n_seg cache" by (auto split: if_splits)
    from r i obtain ev t where ev: "LRU_evict (LRUs cache ! i) = Inr (ev, t)"
      by (auto split: if_splits sum.splits)
    note e = LRU_evict_Inr[OF ev]
    have sub1: "set (resident_ids (set_LRU cache i t)) \<subseteq> set (resident_ids cache)"
      using e i by (intro ids_set_LRU_sub) (auto dest: in_set_butlastD)
    show "same_params cache c' \<and> i < n_seg cache \<and> (\<forall>k>i. LRUs c' ! k = LRUs cache ! k) \<and>
     (\<exists>ev t. LRU_evict (LRUs cache ! i) = Inr (ev, t) \<and> LRUs c' ! i = t) \<and>
     set (resident_ids c') \<subseteq> set (resident_ids cache)"
    proof (cases "i = 0")
      case True
      with r i ev have "c' = set_LRU cache i t" by auto
      then show ?thesis using i ev sub1 by (simp add: LRUs_set_LRU)
    next
      case False
      with r i ev obtain c2 where
        c2: "SLRU_cool_until_fits (set_LRU cache i t) (i - 1) (obj_size ev) = Inr c2"
        and c': "c' = set_LRU c2 (i - 1) (LRU_insert (LRUs c2 ! (i - 1)) (copy_cache_obj_to_request ev))"
        by (auto split: sum.splits)
      from "1.hyps"[OF _ ev refl False] i c2
      have ih: "same_params (set_LRU cache i t) c2" "\<forall>k>i - 1. LRUs c2 ! k = LRUs (set_LRU cache i t) ! k"
        "set (resident_ids c2) \<subseteq> set (resident_ids (set_LRU cache i t))"
        by auto
      from ih(1) have sp: "same_params cache c2" by (simp add: same_params_def)
      from ih(2) False have t: "LRUs c2 ! i = t" and up: "\<forall>k>i. LRUs c2 ! k = LRUs cache ! k"
        using i by (auto simp: LRUs_set_LRU)
      have i1: "i - 1 < n_seg c2" using sp i by (simp add: same_params_def)
      have "obj_id ev \<in> set (resident_ids cache)"
        using e ids_nth[OF i] by (metis imageI last_in_set subsetD)
      moreover have "set (resident_ids c') \<subseteq> set (resident_ids c2) \<union> {obj_id ev}"
        using ids_set_LRU[of c2 "i - 1" "LRU_insert (LRUs c2 ! (i - 1)) (copy_cache_obj_to_request ev)"]
          ids_nth[OF i1] c'
        by (auto simp: LRU_insert_def create_cache_obj_from_request_def copy_cache_obj_to_request_def)
      ultimately have "set (resident_ids c') \<subseteq> set (resident_ids cache)"
        using ih(3) sub1 by blast
      then show ?thesis using c' sp t up i False ev
        by (auto simp: LRUs_set_LRU)
    qed
  qed
next
  case (2 cache j sz)
  show ?case
  proof (intro allI impI)
    fix c' assume r: "SLRU_cool_until_fits cache j sz = Inr c'"
    note r = r[unfolded SLRU_cool_until_fits.simps[of cache j sz]]
    from r have j: "\<not> n_seg cache \<le> j" by (auto split: if_splits)
    show "same_params cache c' \<and> j < n_seg cache \<and> (\<forall>k>j. LRUs c' ! k = LRUs cache ! k) \<and>
     tier_fits c' j sz \<and>
     (\<exists>m. q_list (LRUs c' ! j) = take m (q_list (LRUs cache ! j))) \<and>
     cache_size (LRUs c' ! j) = cache_size (LRUs cache ! j) \<and>
     per_obj_overhead (LRUs c' ! j) = per_obj_overhead (LRUs cache ! j) \<and>
     set (resident_ids c') \<subseteq> set (resident_ids cache)"
    proof (cases "cache_size (LRUs cache ! j) < occupied_size (LRUs cache ! j) + sz + per_obj_overhead cache")
      case False
      with r j have "c' = cache" by auto
      moreover have "\<exists>m. q_list (LRUs cache ! j) = take m (q_list (LRUs cache ! j))"
        by (rule exI[of _ "length (q_list (LRUs cache ! j))"]) simp
      ultimately show ?thesis using False j by (simp add: tier_fits_def)
    next
      case True
      with r j obtain c1 where c1: "SLRU_cool cache j = Inr c1"
        and c': "SLRU_cool_until_fits c1 j sz = Inr c'"
        by (auto split: sum.splits)
      from "2.hyps"(1)[OF j True] c1 obtain ev t where
        a: "same_params cache c1" "\<forall>k>j. LRUs c1 ! k = LRUs cache ! k"
           "set (resident_ids c1) \<subseteq> set (resident_ids cache)"
        and ev: "LRU_evict (LRUs cache ! j) = Inr (ev, t)" "LRUs c1 ! j = t"
        by auto
      from "2.hyps"(2)[OF j True c1] c' obtain m where
        b: "same_params c1 c'" "\<forall>k>j. LRUs c' ! k = LRUs c1 ! k" "tier_fits c' j sz"
           "set (resident_ids c') \<subseteq> set (resident_ids c1)"
           "cache_size (LRUs c' ! j) = cache_size (LRUs c1 ! j)"
           "per_obj_overhead (LRUs c' ! j) = per_obj_overhead (LRUs c1 ! j)"
        and m: "q_list (LRUs c' ! j) = take m (q_list (LRUs c1 ! j))"
        by auto
      note e = LRU_evict_Inr[OF ev(1)]
      have "q_list (LRUs c' ! j) = take m (butlast (q_list (LRUs cache ! j)))"
        using m ev e by simp
      then have "\<exists>m. q_list (LRUs c' ! j) = take m (q_list (LRUs cache ! j))"
        by (metis butlast_conv_take take_take)
      then show ?thesis using a b j ev e same_params_trans[OF a(1) b(1)] by auto
    qed
  qed
qed

lemma tier_ok_nonempty:
  "tier_ok ovh cap t \<Longrightarrow> 0 < occupied_size t \<Longrightarrow> q_list t \<noteq> []"
  by (auto simp: tier_ok_def)

lemma SLRU_cool_total:
  "SLRU_ok cache cap \<longrightarrow> i < n_seg cache \<longrightarrow> q_list (LRUs cache ! i) \<noteq> [] \<longrightarrow>
     (\<exists>c'. SLRU_cool cache i = Inr c' \<and> SLRU_ok c' cap)"
  "SLRU_ok cache cap \<longrightarrow> j < n_seg cache \<longrightarrow> sz + per_obj_overhead cache \<le> cap \<longrightarrow>
     (\<exists>c'. SLRU_cool_until_fits cache j sz = Inr c' \<and> SLRU_ok c' cap)"
proof (induct cache i and cache j sz rule: SLRU_cool_SLRU_cool_until_fits.induct)
  case (1 cache i)
  show ?case
  proof (intro impI)
    assume ok: "SLRU_ok cache cap" and i: "i < n_seg cache" and ne: "q_list (LRUs cache ! i) \<noteq> []"
    let ?ovh = "per_obj_overhead cache"
    let ?e = "last (q_list (LRUs cache ! i))"
    have ti: "tier_ok ?ovh cap (LRUs cache ! i)" using ok i by (rule SLRU_ok_nth)
    from LRU_evict_ok[OF ti ne] obtain t where
      ev: "LRU_evict (LRUs cache ! i) = Inr (?e, t)" and t: "tier_ok ?ovh cap t"
      and occ: "occupied_size t + (obj_size ?e + ?ovh) = occupied_size (LRUs cache ! i)"
      by blast
    have ok1: "SLRU_ok (set_LRU cache i t) cap" using ok t by (rule SLRU_ok_set_LRU)
    show "\<exists>c'. SLRU_cool cache i = Inr c' \<and> SLRU_ok c' cap"
    proof (cases "i = 0")
      case True
      then have "SLRU_cool cache i = Inr (set_LRU cache i t)"
        using i ev by (subst SLRU_cool.simps) simp
      with ok1 show ?thesis by blast
    next
      case False
      have sz: "obj_size ?e + per_obj_overhead (set_LRU cache i t) \<le> cap"
        using occ ti by (simp add: tier_ok_def)
      from "1.hyps"[OF _ ev refl False] i ok1 sz obtain c2 where
        c2: "SLRU_cool_until_fits (set_LRU cache i t) (i - 1) (obj_size ?e) = Inr c2"
        and ok2: "SLRU_ok c2 cap"
        by auto
      from SLRU_cool_frame(2)[of "set_LRU cache i t" "i - 1" "obj_size ?e"] c2
      have sp: "same_params cache c2" and fit: "tier_fits c2 (i - 1) (obj_size ?e)"
        by (auto simp: same_params_def)
      have i1: "i - 1 < n_seg c2" using sp i by (simp add: same_params_def)
      have ovh: "per_obj_overhead c2 = ?ovh" using sp by (simp add: same_params_def)
      have t1: "tier_ok ?ovh cap (LRUs c2 ! (i - 1))" using SLRU_ok_nth[OF ok2 i1] ovh by simp
      have "tier_ok ?ovh cap (LRU_insert (LRUs c2 ! (i - 1)) (copy_cache_obj_to_request ?e))"
        using t1 fit ovh
        by (intro LRU_insert_ok) (auto simp: tier_fits_def tier_ok_def copy_cache_obj_to_request_def)
      then have "SLRU_ok (set_LRU c2 (i - 1) (LRU_insert (LRUs c2 ! (i - 1)) (copy_cache_obj_to_request ?e))) cap"
        using ok2 ovh by (intro SLRU_ok_set_LRU) auto
      moreover have "SLRU_cool cache i =
          Inr (set_LRU c2 (i - 1) (LRU_insert (LRUs c2 ! (i - 1)) (copy_cache_obj_to_request ?e)))"
        using i ev False c2 by (subst SLRU_cool.simps) simp
      ultimately show ?thesis by blast
    qed
  qed
next
  case (2 cache j sz)
  show ?case
  proof (intro impI)
    assume ok: "SLRU_ok cache cap" and j: "j < n_seg cache" and sz: "sz + per_obj_overhead cache \<le> cap"
    let ?ovh = "per_obj_overhead cache"
    have tj: "tier_ok ?ovh cap (LRUs cache ! j)" using ok j by (rule SLRU_ok_nth)
    show "\<exists>c'. SLRU_cool_until_fits cache j sz = Inr c' \<and> SLRU_ok c' cap"
    proof (cases "cache_size (LRUs cache ! j) < occupied_size (LRUs cache ! j) + sz + per_obj_overhead cache")
      case False
      then have "SLRU_cool_until_fits cache j sz = Inr cache"
        using j by (subst SLRU_cool_until_fits.simps) simp
      with ok show ?thesis by blast
    next
      case True
      have nj: "\<not> n_seg cache \<le> j" using j by simp
      have "0 < occupied_size (LRUs cache ! j)" using True sz tj by (simp add: tier_ok_def)
      with tj have ne: "q_list (LRUs cache ! j) \<noteq> []" by (rule tier_ok_nonempty)
      from "2.hyps"(1)[OF nj True] ok j ne obtain c1 where
        c1: "SLRU_cool cache j = Inr c1" and ok1: "SLRU_ok c1 cap" by auto
      from SLRU_cool_frame(1)[of cache j] c1 have sp: "same_params cache c1" by auto
      from "2.hyps"(2)[OF nj True c1] ok1 sp j sz obtain c' where
        c': "SLRU_cool_until_fits c1 j sz = Inr c'" and ok': "SLRU_ok c' cap"
        by (auto simp: same_params_def)
      have "SLRU_cool_until_fits cache j sz = Inr c'"
        using j True c1 c' by (subst SLRU_cool_until_fits.simps) simp
      with ok' show ?thesis by blast
    qed
  qed
qed

subsection \<open>The tier scans\<close>

lemma SLRU_check_from_skip:
  "j \<le> i \<Longrightarrow> i < n_seg cache \<Longrightarrow>
   \<forall>k. j \<le> k \<and> k < i \<longrightarrow> fst (LRU_check (LRUs cache ! k) req u) = cache_ck_miss \<Longrightarrow>
   SLRU_check_from cache req u j = SLRU_check_from cache req u i"
proof (induction "i - j" arbitrary: j)
  case 0
  then show ?case by simp
next
  case (Suc d)
  then have ji: "j < i" by simp
  with Suc.prems have m: "fst (LRU_check (LRUs cache ! j) req u) = cache_ck_miss" by simp
  then have "snd (LRU_check (LRUs cache ! j) req u) = LRUs cache ! j"
    by (intro LRU_check_unchanged) simp
  with m have lc: "LRU_check (LRUs cache ! j) req u = (cache_ck_miss, LRUs cache ! j)"
    by (metis prod.collapse)
  have "SLRU_check_from cache req u j = SLRU_check_from cache req u (Suc j)"
    using ji Suc.prems(2) lc by (subst SLRU_check_from.simps) (simp add: set_LRU_same)
  also have "\<dots> = SLRU_check_from cache req u i"
    using Suc ji by (intro Suc.hyps(1)) auto
  finally show ?case .
qed

lemma SLRU_check_expired:
  assumes "i < n_seg cache"
    and "\<forall>j<i. fst (LRU_check (LRUs cache ! j) req u) = cache_ck_miss"
    and "fst (LRU_check (LRUs cache ! i) req u) = cache_ck_expired"
  shows "SLRU_check cache req u = Inr (cache_ck_expired, cache)"
proof -
  from assms(3) have "snd (LRU_check (LRUs cache ! i) req u) = LRUs cache ! i"
    by (intro LRU_check_unchanged) simp
  with assms(3) have lc: "LRU_check (LRUs cache ! i) req u = (cache_ck_expired, LRUs cache ! i)"
    by (metis prod.collapse)
  have "SLRU_check cache req u = SLRU_check_from cache req u i"
    unfolding SLRU_check_def using assms(1,2) by (intro SLRU_check_from_skip) auto
  also have "\<dots> = Inr (cache_ck_expired, cache)"
    using assms(1) lc by (subst SLRU_check_from.simps) (simp add: set_LRU_same)
  finally show ?thesis .
qed


lemma SLRU_insert_from_skip:
  "j \<le> i \<Longrightarrow> i \<le> n_seg cache \<Longrightarrow>
   \<forall>k. j \<le> k \<and> k < i \<longrightarrow> \<not> tier_fits cache k (req_obj_size req) \<Longrightarrow>
   SLRU_insert_from cache req j = SLRU_insert_from cache req i"
proof (induction "i - j" arbitrary: j)
  case 0
  then show ?case by simp
next
  case (Suc d)
  then have ji: "j < i" by simp
  with Suc.prems have m: "\<not> tier_fits cache j (req_obj_size req)" by simp
  have "SLRU_insert_from cache req j = SLRU_insert_from cache req (Suc j)"
    using ji Suc.prems(2) m by (subst SLRU_insert_from.simps) (simp add: tier_fits_def)
  also have "\<dots> = SLRU_insert_from cache req i"
    using Suc ji by (intro Suc.hyps(1)) auto
  finally show ?case .
qed

lemma SLRU_insert_lowest_fit:
  assumes "i < n_seg cache" "tier_fits cache i (req_obj_size req)"
    and "\<forall>j<i. \<not> tier_fits cache j (req_obj_size req)"
  shows "SLRU_insert cache req = Inr (set_LRU cache i (LRU_insert (LRUs cache ! i) req))"
proof -
  have "SLRU_insert cache req = SLRU_insert_from cache req i"
    unfolding SLRU_insert_def using assms(1,3) by (intro SLRU_insert_from_skip) auto
  also have "\<dots> = Inr (set_LRU cache i (LRU_insert (LRUs cache ! i) req))"
    using assms(1,2) by (subst SLRU_insert_from.simps) (simp add: tier_fits_def)
  finally show ?thesis .
qed

lemma SLRU_insert_no_fit:
  assumes "\<forall>j<n_seg cache. \<not> tier_fits cache j (req_obj_size req)"
  shows "SLRU_insert cache req =
     (case SLRU_evict_until_fits cache req of
        Inl e \<Rightarrow> Inl e
      | Inr cache1 \<Rightarrow> Inr (set_LRU cache1 0 (LRU_insert (LRUs cache1 ! 0) req)))"
proof -
  have "SLRU_insert cache req = SLRU_insert_from cache req (n_seg cache)"
    unfolding SLRU_insert_def using assms by (intro SLRU_insert_from_skip) auto
  also have "\<dots> = (case SLRU_evict_until_fits cache req of
        Inl e \<Rightarrow> Inl e
      | Inr cache1 \<Rightarrow> Inr (set_LRU cache1 0 (LRU_insert (LRUs cache1 ! 0) req)))"
    by (subst SLRU_insert_from.simps) simp
  finally show ?thesis .
qed

lemma keep_mru_all: "keep_mru t (length (q_list t)) = t"
  by (simp add: keep_mru_def)

lemma keep_mru_evicted:
  assumes "LRU_evict t = Inr (ob, t')" "m \<le> length (q_list t')"
  shows "keep_mru t' m = keep_mru t m"
proof -
  note e = LRU_evict_Inr[OF assms(1)]
  from e have q: "q_list t = q_list t' @ [ob]" by simp
  have "take m (q_list t) = take m (q_list t')" using q assms(2) by simp
  moreover have "drop m (q_list t) = drop m (q_list t') @ [ob]" using q assms(2) by simp
  ultimately show ?thesis using e by (simp add: keep_mru_def)
qed

lemma SLRU_evict_until_fits_result:
  "0 < n_seg cache \<Longrightarrow> tier_ok (per_obj_overhead cache) cap (LRUs cache ! 0) \<Longrightarrow>
   req_obj_size req + per_obj_overhead cache \<le> cap \<Longrightarrow>
   \<exists>m\<le>length (q_list (LRUs cache ! 0)).
     SLRU_evict_until_fits cache req = Inr (set_LRU cache 0 (keep_mru (LRUs cache ! 0) m)) \<and>
     occupied_size (keep_mru (LRUs cache ! 0) m) + req_obj_size req + per_obj_overhead cache \<le> cap \<and>
     (\<forall>m'. m < m' \<and> m' \<le> length (q_list (LRUs cache ! 0)) \<longrightarrow>
        cap < occupied_size (keep_mru (LRUs cache ! 0) m') + req_obj_size req + per_obj_overhead cache)"
proof (induction "length (q_list (LRUs cache ! 0))" arbitrary: cache)
  case 0
  let ?t = "LRUs cache ! 0"
  from 0 have "occupied_size ?t = 0" by (simp add: tier_ok_def)
  with 0 have "SLRU_evict_until_fits cache req = Inr cache"
    by (subst SLRU_evict_until_fits.simps) (simp add: tier_ok_def)
  moreover have "set_LRU cache 0 (keep_mru ?t 0) = cache"
    using 0 keep_mru_all[of ?t] by (simp add: set_LRU_same)
  ultimately show ?case using 0 \<open>occupied_size ?t = 0\<close> keep_mru_all[of ?t]
    by (intro exI[of _ 0]) simp
next
  case (Suc n)
  let ?t = "LRUs cache ! 0"
  let ?ovh = "per_obj_overhead cache"
  let ?sz = "req_obj_size req"
  have cap: "cache_size ?t = cap" using Suc.prems(2) by (simp add: tier_ok_def)
  show ?case
  proof (cases "cap < occupied_size ?t + ?sz + ?ovh")
    case False
    then have "SLRU_evict_until_fits cache req = Inr cache"
      using Suc.prems(1) cap by (subst SLRU_evict_until_fits.simps) simp
    moreover have "set_LRU cache 0 (keep_mru ?t (length (q_list ?t))) = cache"
      using Suc.prems(1) by (simp add: keep_mru_all set_LRU_same)
    ultimately show ?thesis using False
      by (intro exI[of _ "length (q_list ?t)"]) (simp add: keep_mru_all)
  next
    case True
    have ne: "q_list ?t \<noteq> []" using Suc.hyps(2) by auto
    from LRU_evict_ok[OF Suc.prems(2) ne] obtain t' where
      ev: "LRU_evict ?t = Inr (last (q_list ?t), t')" and t': "tier_ok ?ovh cap t'"
      and q': "q_list t' = butlast (q_list ?t)" by blast
    let ?c1 = "set_LRU cache 0 t'"
    have se: "SLRU_evict cache = Inr (last (q_list ?t), ?c1)"
      using Suc.prems(1) ev by (simp add: SLRU_evict_def)
    have t1: "LRUs ?c1 ! 0 = t'" using Suc.prems(1) by (simp add: LRUs_set_LRU)
    have len: "n = length (q_list (LRUs ?c1 ! 0))" using t1 q' Suc.hyps(2) by simp
    from Suc.hyps(1)[OF len] Suc.prems t' t1 obtain m where
      m: "m \<le> length (q_list t')"
      and r: "SLRU_evict_until_fits ?c1 req = Inr (set_LRU ?c1 0 (keep_mru t' m))"
      and f: "occupied_size (keep_mru t' m) + ?sz + ?ovh \<le> cap"
      and nf: "\<forall>m'. m < m' \<and> m' \<le> length (q_list t') \<longrightarrow>
                 cap < occupied_size (keep_mru t' m') + ?sz + ?ovh"
      by auto
    have km: "keep_mru t' k = keep_mru ?t k" if "k \<le> length (q_list t')" for k
      using ev that by (rule keep_mru_evicted)
    have "SLRU_evict_until_fits cache req = Inr (set_LRU cache 0 (keep_mru ?t m))"
      using Suc.prems(1) True cap se r km[OF m] by (subst SLRU_evict_until_fits.simps) simp
    moreover have "\<forall>m'. m < m' \<and> m' \<le> length (q_list ?t) \<longrightarrow>
                 cap < occupied_size (keep_mru ?t m') + ?sz + ?ovh"
    proof (intro allI impI)
      fix m' assume a: "m < m' \<and> m' \<le> length (q_list ?t)"
      show "cap < occupied_size (keep_mru ?t m') + ?sz + ?ovh"
      proof (cases "m' = length (q_list ?t)")
        case True
        then show ?thesis using \<open>cap < occupied_size ?t + ?sz + ?ovh\<close> by (simp add: keep_mru_all)
      next
        case False
        with a have "m' < length (q_list (LRUs cache ! 0))" by arith
        then have "m' \<le> length (q_list t')" unfolding q' length_butlast by arith
        with nf a km[of m'] show ?thesis by auto
      qed
    qed
    moreover have "m \<le> length (q_list ?t)" using m q' by simp
    ultimately show ?thesis using f km[OF m] by auto
  qed
qed

subsection \<open>Residents and promotion\<close>









subsection \<open>Cooling is a cascade of demotions\<close>

lemma demoted_obj_simps [simp]:
  "obj_size (demoted_obj ob) = obj_size ob" "obj_id (demoted_obj ob) = obj_id ob"
  "demoted_obj (demoted_obj ob) = demoted_obj ob"
  by (simp_all add: demoted_obj_def create_cache_obj_from_request_def copy_cache_obj_to_request_def)

lemma tier_weight_simps [simp]:
  "tier_weight ovh [] = 0"
  "tier_weight ovh (ob # obs) = obj_size ob + ovh + tier_weight ovh obs"
  "tier_weight ovh (xs @ ys) = tier_weight ovh xs + tier_weight ovh ys"
  by (simp_all add: tier_weight_def)

lemma tier_weight_take_drop:
  "tier_weight ovh (take m q) + tier_weight ovh (drop m q) = tier_weight ovh q"
  using tier_weight_simps(3)[of ovh "take m q" "drop m q"] by simp

lemma tier_weight_take_mono:
  "m \<le> m' \<Longrightarrow> tier_weight ovh (take m q) \<le> tier_weight ovh (take m' q)"
proof -
  assume "m \<le> m'"
  then have "take m q = take m (take m' q)" by (simp add: min_def)
  then show ?thesis
    using tier_weight_take_drop[of ovh m "take m' q"] by simp
qed

lemma fit_mru_fit: "r \<le> c \<Longrightarrow> fit_mru ovh r (fit_mru ovh c Z) = fit_mru ovh r Z"
  by (induction Z arbitrary: r c) auto

lemma fit_mru_append_fit:
  "r \<le> c \<Longrightarrow> fit_mru ovh r (X @ fit_mru ovh c Z) = fit_mru ovh r (X @ Z)"
  by (induction X arbitrary: r) (auto simp: fit_mru_fit)

lemma fit_mru_prefix: "fit_mru ovh r L = take (length (fit_mru ovh r L)) L"
  by (induction L arbitrary: r) auto

lemma fit_mru_length: "length (fit_mru ovh r L) \<le> length L"
  by (induction L arbitrary: r) auto

lemma fit_mru_weight: "tier_weight ovh (fit_mru ovh r L) \<le> r"
proof (induction L arbitrary: r)
  case Nil
  then show ?case by simp
next
  case (Cons a L)
  show ?case
  proof (cases "obj_size a + ovh \<le> r")
    case True
    with Cons[of "r - (obj_size a + ovh)"] show ?thesis by simp
  next
    case False
    then show ?thesis by simp
  qed
qed

lemma fit_mru_all: "tier_weight ovh L \<le> r \<Longrightarrow> fit_mru ovh r L = L"
  by (induction L arbitrary: r) auto

lemma fit_mru_next:
  "length (fit_mru ovh r L) < length L \<Longrightarrow>
   r < tier_weight ovh (take (Suc (length (fit_mru ovh r L))) L)"
proof (induction L arbitrary: r)
  case Nil
  then show ?case by simp
next
  case (Cons a L)
  show ?case
  proof (cases "obj_size a + ovh \<le> r")
    case True
    with Cons.prems have "length (fit_mru ovh (r - (obj_size a + ovh)) L) < length L" by simp
    from Cons.IH[OF this] True show ?thesis by simp
  next
    case False
    then show ?thesis by simp
  qed
qed

lemma fit_mru_take:
  assumes m: "m \<le> length q" and fit: "tier_weight ovh (take m q) \<le> r"
    and mx: "\<forall>m'. m < m' \<and> m' \<le> length q \<longrightarrow> r < tier_weight ovh (take m' q)"
  shows "fit_mru ovh r q = take m q"
proof -
  let ?n = "length (fit_mru ovh r q)"
  have n: "?n \<le> length q" by (rule fit_mru_length)
  have "\<not> ?n < m"
  proof
    assume lt: "?n < m"
    then have "?n < length q" using m by simp
    from fit_mru_next[OF this] have "r < tier_weight ovh (take (Suc ?n) q)" .
    moreover have "tier_weight ovh (take (Suc ?n) q) \<le> tier_weight ovh (take m q)"
      using lt by (intro tier_weight_take_mono) simp
    ultimately show False using fit by simp
  qed
  moreover have "\<not> m < ?n"
  proof
    assume "m < ?n"
    with mx n have "r < tier_weight ovh (take ?n q)" by simp
    moreover have "tier_weight ovh (take ?n q) \<le> r"
      using fit_mru_weight[of ovh r q] fit_mru_prefix[of ovh r q] by simp
    ultimately show False by simp
  qed
  ultimately have "?n = m" by simp
  then show ?thesis using fit_mru_prefix[of ovh r q] by simp
qed

lemma tier_receive_fields [simp]:
  "cache_size (tier_receive t obs) = cache_size t"
  "per_obj_overhead (tier_receive t obs) = per_obj_overhead t"
  by (simp_all add: tier_receive_def)

lemma tier_receive_twice:
  "tier_receive (tier_receive t Y) X = tier_receive t (X @ Y)"
  by (simp add: tier_receive_def fit_mru_append_fit)

lemma tier_overflow_twice:
  "tier_overflow (tier_receive t Y) X @ tier_overflow t Y = tier_overflow t (X @ Y)"
proof -
  let ?ovh = "per_obj_overhead t" and ?c = "cache_size t"
  let ?Z = "map demoted_obj Y @ q_list t"
  let ?X = "map demoted_obj X"
  let ?K1 = "fit_mru ?ovh ?c ?Z"
  let ?K2 = "fit_mru ?ovh ?c (?X @ ?K1)"
  have k2: "?K2 = fit_mru ?ovh ?c (?X @ ?Z)" by (simp add: fit_mru_append_fit)
  have len: "length ?K2 \<le> length (?X @ ?K1)" by (rule fit_mru_length)
  have z: "?Z = ?K1 @ drop (length ?K1) ?Z"
    using fit_mru_prefix[of ?ovh ?c ?Z] by (metis append_take_drop_id)
  have "drop (length ?K2) (?X @ ?Z) = drop (length ?K2) ((?X @ ?K1) @ drop (length ?K1) ?Z)"
    using z by simp
  also have "\<dots> = drop (length ?K2) (?X @ ?K1) @ drop (length ?K1) ?Z"
    using len by (simp only: drop_append) simp
  finally show ?thesis
    using k2 by (simp add: tier_overflow_def tier_receive_def)
qed

lemma tier_receive_nil: "tier_ok ovh cap t \<Longrightarrow> tier_receive t [] = t"
  by (simp add: tier_receive_def tier_ok_def tier_weight_def fit_mru_all)

lemma tier_overflow_nil: "tier_ok ovh cap t \<Longrightarrow> tier_overflow t [] = []"
  by (simp add: tier_overflow_def tier_receive_nil)

lemma set_LRU_commute:
  "i \<noteq> k \<Longrightarrow> set_LRU (set_LRU c i t) k t' = set_LRU (set_LRU c k t') i t"
  by (simp add: set_LRU_def list_update_swap)

lemma demote_n_seg [simp]: "n_seg (demote c j obs) = n_seg c"
  by (induction j arbitrary: c obs) auto

lemma demote_set_LRU:
  "j \<le> k \<Longrightarrow> demote (set_LRU c k t) j obs = set_LRU (demote c j obs) k t"
proof (induction j arbitrary: c obs)
  case 0
  then show ?case by simp
next
  case (Suc j)
  then have jk: "j \<noteq> k" "j < k" by simp_all
  have "LRUs (set_LRU c k t) ! j = LRUs c ! j" using jk by (simp add: LRUs_set_LRU)
  then show ?case using Suc.IH[of "set_LRU c j (tier_receive (LRUs c ! j) obs)"] jk
    by (simp add: set_LRU_commute[of k j])
qed

lemma demote_frame: "j \<le> k \<Longrightarrow> LRUs (demote c j obs) ! k = LRUs c ! k"
proof (induction j arbitrary: c obs)
  case 0
  then show ?case by simp
next
  case (Suc j)
  then show ?case by (simp add: LRUs_set_LRU)
qed

lemma demote_fields [simp]:
  "cache_size (demote c j obs) = cache_size c"
  "per_obj_overhead (demote c j obs) = per_obj_overhead c"
  "occupied_size (demote c j obs) = occupied_size c"
  by (induction j arbitrary: c obs) auto

lemma demote_twice:
  "j \<le> n_seg c \<Longrightarrow> demote (demote c j Y) j X = demote c j (X @ Y)"
proof (induction j arbitrary: c X Y)
  case 0
  then show ?case by simp
next
  case (Suc j)
  let ?t = "LRUs c ! j"
  let ?c1 = "set_LRU c j (tier_receive ?t Y)"
  let ?r = "demote ?c1 j (tier_overflow ?t Y)"
  have j: "j < n_seg c" using Suc.prems by simp
  have rj: "LRUs ?r ! j = tier_receive ?t Y"
    using j by (simp add: demote_frame LRUs_set_LRU)
  have "demote (demote c (Suc j) Y) (Suc j) X =
      demote (set_LRU ?r j (tier_receive (tier_receive ?t Y) X)) j
        (tier_overflow (tier_receive ?t Y) X)"
    using rj by simp
  also have "set_LRU ?r j (tier_receive (tier_receive ?t Y) X) =
      demote (set_LRU c j (tier_receive ?t (X @ Y))) j (tier_overflow ?t Y)"
    by (simp add: demote_set_LRU[symmetric] tier_receive_twice)
  also have "demote (demote (set_LRU c j (tier_receive ?t (X @ Y))) j (tier_overflow ?t Y)) j
        (tier_overflow (tier_receive ?t Y) X) =
      demote (set_LRU c j (tier_receive ?t (X @ Y))) j
        (tier_overflow (tier_receive ?t Y) X @ tier_overflow ?t Y)"
    using j by (intro Suc.IH) simp
  finally show ?case by (simp add: tier_overflow_twice)
qed

lemma demote_nil: "SLRU_ok c cap \<Longrightarrow> j \<le> n_seg c \<Longrightarrow> demote c j [] = c"
proof (induction j)
  case 0
  then show ?case by simp
next
  case (Suc j)
  then have j: "j < n_seg c" by simp
  have t: "tier_ok (per_obj_overhead c) cap (LRUs c ! j)" using Suc.prems(1) j by (rule SLRU_ok_nth)
  show ?case using Suc j tier_receive_nil[OF t] tier_overflow_nil[OF t]
    by (simp add: set_LRU_same)
qed

lemma keep_mru_fields [simp]:
  "cache_size (keep_mru t m) = cache_size t"
  "per_obj_overhead (keep_mru t m) = per_obj_overhead t"
  "q_list (keep_mru t m) = take m (q_list t)"
  by (simp_all add: keep_mru_def)

lemma keep_mru_occupied:
  "tier_ok ovh cap t \<Longrightarrow> occupied_size (keep_mru t m) = tier_weight ovh (take m (q_list t))"
  using tier_weight_take_drop[of ovh m "q_list t"]
  by (simp add: keep_mru_def tier_ok_def tier_weight_def)

lemma drop_to_last: "q \<noteq> [] \<Longrightarrow> drop (length q - 1) q = [last q]"
  by (cases q rule: rev_cases) simp_all

lemma keep_mru_butlast:
  "LRU_evict t = Inr (ob, t') \<Longrightarrow> t' = keep_mru t (length (q_list t) - 1)"
proof -
  assume ev: "LRU_evict t = Inr (ob, t')"
  then have ne: "q_list t \<noteq> []" by (auto simp: LRU_evict_def split: if_splits)
  then have "drop (length (q_list t) - 1) (q_list t) = [last (q_list t)]"
    by (rule drop_to_last)
  then show ?thesis using ev ne
    by (auto simp: LRU_evict_def keep_mru_def butlast_conv_take split: if_splits)
qed

lemma tier_receive_one:
  assumes t: "tier_ok ovh cap t" and m: "m \<le> length (q_list t)"
    and fit: "occupied_size (keep_mru t m) + obj_size e + ovh \<le> cap"
    and mx: "\<forall>m'. m < m' \<and> m' \<le> length (q_list t) \<longrightarrow>
               cap < occupied_size (keep_mru t m') + obj_size e + ovh"
  shows "tier_receive t [e] = LRU_insert (keep_mru t m) (copy_cache_obj_to_request e)"
    and "tier_overflow t [e] = drop m (q_list t)"
proof -
  let ?r = "cap - (obj_size e + ovh)"
  have occ: "occupied_size (keep_mru t k) = tier_weight ovh (take k (q_list t))" for k
    using t by (rule keep_mru_occupied)
  have p: "per_obj_overhead t = ovh" "cache_size t = cap" using t by (simp_all add: tier_ok_def)
  have e: "obj_size e + ovh \<le> cap" using fit by simp
  have f1: "tier_weight ovh (take m (q_list t)) \<le> ?r" using fit occ[of m] by simp
  have f2: "\<forall>m'. m < m' \<and> m' \<le> length (q_list t) \<longrightarrow> ?r < tier_weight ovh (take m' (q_list t))"
  proof (intro allI impI)
    fix m' assume "m < m' \<and> m' \<le> length (q_list t)"
    with mx have "cap < occupied_size (keep_mru t m') + obj_size e + ovh" by blast
    then have "cap < tier_weight ovh (take m' (q_list t)) + obj_size e + ovh" unfolding occ .
    then show "?r < tier_weight ovh (take m' (q_list t))" using e by arith
  qed
  have k: "fit_mru ovh ?r (q_list t) = take m (q_list t)"
    using m f1 f2 by (rule fit_mru_take)
  have q: "fit_mru ovh cap (map demoted_obj [e] @ q_list t) = demoted_obj e # take m (q_list t)"
    using e k by simp
  show "tier_receive t [e] = LRU_insert (keep_mru t m) (copy_cache_obj_to_request e)"
    using q p occ[of m]
    by (simp add: tier_receive_def LRU_insert_def demoted_obj_def copy_cache_obj_to_request_def
        create_cache_obj_from_request_def keep_mru_def)
  show "tier_overflow t [e] = drop m (q_list t)"
    using q p m by (simp add: tier_overflow_def tier_receive_def)
qed

lemma drop_butlast_last:
  "q \<noteq> [] \<Longrightarrow> m \<le> length (butlast q) \<Longrightarrow> drop m (butlast q) @ [last q] = drop m q"
  by (induction q rule: rev_induct) auto

lemma SLRU_cool_demote:
  "SLRU_ok cache cap \<longrightarrow> i < n_seg cache \<longrightarrow> q_list (LRUs cache ! i) \<noteq> [] \<longrightarrow>
     SLRU_cool cache i =
       Inr (demote (set_LRU cache i (keep_mru (LRUs cache ! i) (length (q_list (LRUs cache ! i)) - 1)))
              i [last (q_list (LRUs cache ! i))])"
  "SLRU_ok cache cap \<longrightarrow> j < n_seg cache \<longrightarrow> sz + per_obj_overhead cache \<le> cap \<longrightarrow>
     (\<exists>m\<le>length (q_list (LRUs cache ! j)).
        SLRU_cool_until_fits cache j sz =
          Inr (demote (set_LRU cache j (keep_mru (LRUs cache ! j) m)) j
                 (drop m (q_list (LRUs cache ! j)))) \<and>
        occupied_size (keep_mru (LRUs cache ! j) m) + sz + per_obj_overhead cache \<le> cap \<and>
        (\<forall>m'. m < m' \<and> m' \<le> length (q_list (LRUs cache ! j)) \<longrightarrow>
           cap < occupied_size (keep_mru (LRUs cache ! j) m') + sz + per_obj_overhead cache))"
proof (induct cache i and cache j sz rule: SLRU_cool_SLRU_cool_until_fits.induct)
  case (1 cache i)
  show ?case
  proof (intro impI)
    assume ok: "SLRU_ok cache cap" and i: "i < n_seg cache" and ne: "q_list (LRUs cache ! i) \<noteq> []"
    let ?ovh = "per_obj_overhead cache"
    let ?ti = "LRUs cache ! i"
    let ?e = "last (q_list ?ti)"
    have ti: "tier_ok ?ovh cap ?ti" using ok i by (rule SLRU_ok_nth)
    from LRU_evict_ok[OF ti ne] obtain t where
      ev: "LRU_evict ?ti = Inr (?e, t)" and t: "tier_ok ?ovh cap t"
      and occ: "occupied_size t + (obj_size ?e + ?ovh) = occupied_size ?ti"
      by blast
    have tk: "t = keep_mru ?ti (length (q_list ?ti) - 1)" using ev by (rule keep_mru_butlast)
    let ?c0 = "set_LRU cache i t"
    have ok0: "SLRU_ok ?c0 cap" using ok t by (rule SLRU_ok_set_LRU)
    show "SLRU_cool cache i =
       Inr (demote (set_LRU cache i (keep_mru ?ti (length (q_list ?ti) - 1))) i [?e])"
    proof (cases i)
      case 0
      then have "SLRU_cool cache i = Inr ?c0"
        using i ev by (subst SLRU_cool.simps) simp
      then show ?thesis using 0 tk by simp
    next
      case (Suc j)
      then have i0: "i \<noteq> 0" and j: "j = i - 1" "j < n_seg ?c0" "j \<noteq> i" using i by simp_all
      let ?tj = "LRUs cache ! j"
      have tj0: "LRUs ?c0 ! j = ?tj" using j by (simp add: LRUs_set_LRU)
      have tj: "tier_ok ?ovh cap ?tj" using ok j by (intro SLRU_ok_nth) simp_all
      have sz: "obj_size ?e + per_obj_overhead ?c0 \<le> cap"
        using occ ti by (simp add: tier_ok_def)
      from "1.hyps"[OF _ ev refl i0] i ok0 sz j tj0 obtain m where
        m: "m \<le> length (q_list ?tj)"
        and c2: "SLRU_cool_until_fits ?c0 j (obj_size ?e) =
                   Inr (demote (set_LRU ?c0 j (keep_mru ?tj m)) j (drop m (q_list ?tj)))"
        and fit: "occupied_size (keep_mru ?tj m) + obj_size ?e + ?ovh \<le> cap"
        and mx: "\<forall>m'. m < m' \<and> m' \<le> length (q_list ?tj) \<longrightarrow>
                   cap < occupied_size (keep_mru ?tj m') + obj_size ?e + ?ovh"
        by auto
      let ?c2 = "demote (set_LRU ?c0 j (keep_mru ?tj m)) j (drop m (q_list ?tj))"
      have c2j: "LRUs ?c2 ! j = keep_mru ?tj m"
        using j by (simp add: demote_frame LRUs_set_LRU)
      note one = tier_receive_one[OF tj m fit mx]
      have "SLRU_cool cache i =
          Inr (set_LRU ?c2 j (LRU_insert (LRUs ?c2 ! j) (copy_cache_obj_to_request ?e)))"
        using i ev i0 c2 j(1) by (subst SLRU_cool.simps) simp
      also have "set_LRU ?c2 j (LRU_insert (LRUs ?c2 ! j) (copy_cache_obj_to_request ?e)) =
          demote (set_LRU ?c0 j (tier_receive ?tj [?e])) j (tier_overflow ?tj [?e])"
        using c2j one by (simp add: demote_set_LRU[symmetric])
      also have "\<dots> = demote ?c0 i [?e]" using Suc tj0 by simp
      finally show ?thesis using tk by simp
    qed
  qed
next
  case (2 cache j sz)
  show ?case
  proof (intro impI)
    assume ok: "SLRU_ok cache cap" and j: "j < n_seg cache" and sz: "sz + per_obj_overhead cache \<le> cap"
    let ?ovh = "per_obj_overhead cache"
    let ?t = "LRUs cache ! j"
    let ?q = "q_list ?t"
    have tj: "tier_ok ?ovh cap ?t" using ok j by (rule SLRU_ok_nth)
    have cap: "cache_size ?t = cap" using tj by (simp add: tier_ok_def)
    show "\<exists>m\<le>length ?q.
        SLRU_cool_until_fits cache j sz =
          Inr (demote (set_LRU cache j (keep_mru ?t m)) j (drop m ?q)) \<and>
        occupied_size (keep_mru ?t m) + sz + ?ovh \<le> cap \<and>
        (\<forall>m'. m < m' \<and> m' \<le> length ?q \<longrightarrow> cap < occupied_size (keep_mru ?t m') + sz + ?ovh)"
    proof (cases "cache_size ?t < occupied_size ?t + sz + ?ovh")
      case False
      then have "SLRU_cool_until_fits cache j sz = Inr cache"
        using j by (subst SLRU_cool_until_fits.simps) simp
      moreover have "demote (set_LRU cache j (keep_mru ?t (length ?q))) j (drop (length ?q) ?q) = cache"
        using ok j by (simp add: keep_mru_all set_LRU_same demote_nil)
      ultimately show ?thesis using False cap
        by (intro exI[of _ "length ?q"]) (simp add: keep_mru_all)
    next
      case True
      have nj: "\<not> n_seg cache \<le> j" using j by simp
      have "0 < occupied_size ?t" using True sz tj by (simp add: tier_ok_def)
      with tj have ne: "?q \<noteq> []" by (rule tier_ok_nonempty)
      from LRU_evict_ok[OF tj ne] obtain t' where
        ev: "LRU_evict ?t = Inr (last ?q, t')" and q': "q_list t' = butlast ?q"
        by blast
      have tk: "t' = keep_mru ?t (length ?q - 1)" using ev by (rule keep_mru_butlast)
      let ?c1 = "demote (set_LRU cache j t') j [last ?q]"
      from "2.hyps"(1)[OF nj True] ok j ne tk have c1: "SLRU_cool cache j = Inr ?c1" by simp
      from SLRU_cool_total(1)[of cache cap j] ok j ne c1 have ok1: "SLRU_ok ?c1 cap" by simp
      have c1j: "LRUs ?c1 ! j = t'" using j by (simp add: demote_frame LRUs_set_LRU)
      from "2.hyps"(2)[OF nj True c1] ok1 j sz c1j obtain m where
        m: "m \<le> length (q_list t')"
        and r: "SLRU_cool_until_fits ?c1 j sz =
                  Inr (demote (set_LRU ?c1 j (keep_mru t' m)) j (drop m (q_list t')))"
        and f: "occupied_size (keep_mru t' m) + sz + ?ovh \<le> cap"
        and nf: "\<forall>m'. m < m' \<and> m' \<le> length (q_list t') \<longrightarrow>
                   cap < occupied_size (keep_mru t' m') + sz + ?ovh"
        by auto
      have km: "keep_mru t' k = keep_mru ?t k" if "k \<le> length (q_list t')" for k
        using ev that by (rule keep_mru_evicted)
      have "set_LRU ?c1 j (keep_mru t' m) = demote (set_LRU cache j (keep_mru ?t m)) j [last ?q]"
        using km[OF m] by (simp add: demote_set_LRU[symmetric])
      then have "demote (set_LRU ?c1 j (keep_mru t' m)) j (drop m (q_list t')) =
          demote (set_LRU cache j (keep_mru ?t m)) j (drop m (q_list t') @ [last ?q])"
        using j by (simp add: demote_twice)
      also have "drop m (q_list t') @ [last ?q] = drop m ?q"
        using ne m unfolding q' by (rule drop_butlast_last)
      finally have d: "demote (set_LRU ?c1 j (keep_mru t' m)) j (drop m (q_list t')) =
          demote (set_LRU cache j (keep_mru ?t m)) j (drop m ?q)" .
      have res: "SLRU_cool_until_fits cache j sz =
          Inr (demote (set_LRU cache j (keep_mru ?t m)) j (drop m ?q))"
        using j True c1 r d by (subst SLRU_cool_until_fits.simps) simp
      have "\<forall>m'. m < m' \<and> m' \<le> length ?q \<longrightarrow> cap < occupied_size (keep_mru ?t m') + sz + ?ovh"
      proof (intro allI impI)
        fix m' assume a: "m < m' \<and> m' \<le> length ?q"
        show "cap < occupied_size (keep_mru ?t m') + sz + ?ovh"
        proof (cases "m' = length ?q")
          case True
          then show ?thesis using \<open>cache_size ?t < occupied_size ?t + sz + ?ovh\<close> cap
            by (simp add: keep_mru_all)
        next
          case False
          with a have "m' < length ?q" by arith
          then have "m' \<le> length (q_list t')" unfolding q' length_butlast by arith
          with nf a km[of m'] show ?thesis by auto
        qed
      qed
      moreover have "m \<le> length ?q" using m q' by simp
      ultimately show ?thesis using f km[OF m] res by auto
    qed
  qed
qed

section \<open>Properties of the SLRU policy\<close>




text \<open>
  Claim C4 says that for every request for which no tier has room, \<^verbatim>\<open>SLRU_insert\<close>
  evicts from tier 0 until the object fits and then inserts it there. A request larger
  than the capacity of tier 0 never fits: the loop evicts every object of tier 0 and
  then evicts from the empty tier, and nothing is inserted. Such a request passes the
  guard of \<^verbatim>\<open>SLRU_get\<close> when it is no larger than the whole cache (size 6 in a cache of
  size 10 with two tiers of capacity 5).
\<close>

theorem SLRU_insert_oversized_never_inserted:
  "SLRU_init \<lparr>param_cache_size = 10, param_per_obj_overhead = 0\<rparr> 2 = Inr cache_10_2
   \<and> SLRU_insert cache_10_2 \<lparr>req_obj_id = 1, req_obj_size = 6\<rparr> = Inl evict_from_empty
   \<and> SLRU_get cache_10_2 \<lparr>req_obj_id = 1, req_obj_size = 6\<rparr> = Inl evict_from_empty
   \<and> SLRU_insert cache_full \<lparr>req_obj_id = 9, req_obj_size = 4\<rparr> = Inl evict_from_empty"
  by (simp add: SLRU_defs SLRU_loops cache_10_2_def cache_full_def tier_empty_def obj_ex_def
      replicate_2)

text \<open>
  Claim C4, amended. If \<open>i\<close> is the lowest tier with room for the request,
  \<^verbatim>\<open>SLRU_insert\<close> inserts the object at the MRU end of tier \<open>i\<close> and changes nothing
  else: nothing is evicted. If no tier has room, tier 0 satisfies the accounting
  invariant and the request's size plus the overhead is at most the capacity of tier 0,
  then \<^verbatim>\<open>SLRU_insert\<close> evicts LRU-end objects of tier 0, at least one, until the object
  fits (keeping \<open>m\<close> objects fits, keeping any more does not), inserts the object at the
  MRU end of tier 0 and leaves the other tiers unchanged.
\<close>

theorem SLRU_insert_placement:
  "(i < n_seg cache \<and> tier_fits cache i (req_obj_size req)
      \<and> (\<forall>j<i. \<not> tier_fits cache j (req_obj_size req)) \<longrightarrow>
      SLRU_insert cache req = Inr (set_LRU cache i (LRU_insert (LRUs cache ! i) req)))
   \<and> (0 < n_seg cache \<and> (\<forall>j<n_seg cache. \<not> tier_fits cache j (req_obj_size req))
      \<and> tier_ok (per_obj_overhead cache) cap (LRUs cache ! 0)
      \<and> req_obj_size req + per_obj_overhead cache \<le> cap \<longrightarrow>
      (\<exists>m<length (q_list (LRUs cache ! 0)).
         SLRU_insert cache req = Inr (set_LRU cache 0 (LRU_insert (keep_mru (LRUs cache ! 0) m) req))
         \<and> occupied_size (keep_mru (LRUs cache ! 0) m) + req_obj_size req + per_obj_overhead cache \<le> cap
         \<and> (\<forall>m'. m < m' \<and> m' \<le> length (q_list (LRUs cache ! 0)) \<longrightarrow>
               cap < occupied_size (keep_mru (LRUs cache ! 0) m') + req_obj_size req
                       + per_obj_overhead cache)))"
proof (intro conjI impI)
  assume "i < n_seg cache \<and> tier_fits cache i (req_obj_size req)
      \<and> (\<forall>j<i. \<not> tier_fits cache j (req_obj_size req))"
  then show "SLRU_insert cache req = Inr (set_LRU cache i (LRU_insert (LRUs cache ! i) req))"
    using SLRU_insert_lowest_fit[of i cache req] by blast
next
  let ?t = "LRUs cache ! 0"
  assume a: "0 < n_seg cache \<and> (\<forall>j<n_seg cache. \<not> tier_fits cache j (req_obj_size req))
      \<and> tier_ok (per_obj_overhead cache) cap ?t
      \<and> req_obj_size req + per_obj_overhead cache \<le> cap"
  then have n: "0 < n_seg cache" and nf: "\<forall>j<n_seg cache. \<not> tier_fits cache j (req_obj_size req)"
    and ok: "tier_ok (per_obj_overhead cache) cap ?t"
    and sz: "req_obj_size req + per_obj_overhead cache \<le> cap" by auto
  from SLRU_evict_until_fits_result[OF n ok sz] obtain m where
    m: "m \<le> length (q_list ?t)"
    and r: "SLRU_evict_until_fits cache req = Inr (set_LRU cache 0 (keep_mru ?t m))"
    and f: "occupied_size (keep_mru ?t m) + req_obj_size req + per_obj_overhead cache \<le> cap"
    and g: "\<forall>m'. m < m' \<and> m' \<le> length (q_list ?t) \<longrightarrow>
               cap < occupied_size (keep_mru ?t m') + req_obj_size req + per_obj_overhead cache"
    by blast
  have "\<not> tier_fits cache 0 (req_obj_size req)" using nf n by simp
  then have "m \<noteq> length (q_list ?t)" using f ok by (auto simp: keep_mru_all tier_fits_def tier_ok_def)
  with m have lt: "m < length (q_list ?t)" by simp
  have "SLRU_insert cache req = Inr (set_LRU cache 0 (LRU_insert (keep_mru ?t m) req))"
    using SLRU_insert_no_fit[OF nf] r n by (simp add: LRUs_set_LRU)
  with lt f g show "\<exists>m<length (q_list ?t).
         SLRU_insert cache req = Inr (set_LRU cache 0 (LRU_insert (keep_mru ?t m) req))
         \<and> occupied_size (keep_mru ?t m) + req_obj_size req + per_obj_overhead cache \<le> cap
         \<and> (\<forall>m'. m < m' \<and> m' \<le> length (q_list ?t) \<longrightarrow>
               cap < occupied_size (keep_mru ?t m') + req_obj_size req + per_obj_overhead cache)"
    by blast
qed

theorem SLRU_insert_placement_witness:
  "SLRU_insert cache_room \<lparr>req_obj_id = 9, req_obj_size = 1\<rparr>
      = Inr (set_LRU cache_room 1 (LRU_insert (tier_empty 3) \<lparr>req_obj_id = 9, req_obj_size = 1\<rparr>))
   \<and> SLRU_insert cache_full \<lparr>req_obj_id = 9, req_obj_size = 2\<rparr>
      = Inr (set_LRU cache_full 0
           \<lparr>cache_size = 3, occupied_size = 3, per_obj_overhead = 0,
             q_list = [obj_ex 9 2 False, obj_ex 2 1 False]\<rparr>)"
proof -
  let ?r1 = "\<lparr>req_obj_id = 9, req_obj_size = 1\<rparr>"
  let ?r2 = "\<lparr>req_obj_id = 9, req_obj_size = 2\<rparr>"
  let ?t = "LRUs cache_full ! 0"
  have n: "n_seg cache_room = 2" "n_seg cache_full = 2"
    by (simp_all add: n_seg_def cache_room_def cache_full_def)
  have p1: "1 < n_seg cache_room \<and> tier_fits cache_room 1 (req_obj_size ?r1)
      \<and> (\<forall>j<1. \<not> tier_fits cache_room j (req_obj_size ?r1))"
    by (simp add: n_seg_def cache_room_def tier_empty_def tier_fits_def)
  from SLRU_insert_placement[of 1 cache_room ?r1 3] p1
  have 1: "SLRU_insert cache_room ?r1 = Inr (set_LRU cache_room 1 (LRU_insert (LRUs cache_room ! 1) ?r1))"
    by blast
  have nf: "\<not> tier_fits cache_full j (req_obj_size ?r2)" if "j < 2" for j
  proof -
    from that have "j = 0 \<or> j = 1" by arith
    then show ?thesis by (auto simp: cache_full_def tier_fits_def)
  qed
  have p2: "0 < n_seg cache_full \<and> (\<forall>j<n_seg cache_full. \<not> tier_fits cache_full j (req_obj_size ?r2))
      \<and> tier_ok (per_obj_overhead cache_full) 3 ?t
      \<and> req_obj_size ?r2 + per_obj_overhead cache_full \<le> 3"
    using nf by (simp add: n) (simp add: cache_full_def tier_ok_def obj_ex_def)
  from SLRU_insert_placement[of 0 cache_full ?r2 3] p2
  obtain m where m: "m < length (q_list ?t)"
    and r: "SLRU_insert cache_full ?r2 = Inr (set_LRU cache_full 0 (LRU_insert (keep_mru ?t m) ?r2))"
    and g: "\<forall>m'. m < m' \<and> m' \<le> length (q_list ?t) \<longrightarrow>
        3 < occupied_size (keep_mru ?t m') + req_obj_size ?r2 + per_obj_overhead cache_full"
    by blast
  have len: "length (q_list ?t) = 2" by (simp add: cache_full_def)
  have "m = 1"
  proof (rule ccontr)
    assume "m \<noteq> 1"
    with m len have "m = 0" by simp
    with g len have "3 < occupied_size (keep_mru ?t 1) + req_obj_size ?r2 + per_obj_overhead cache_full"
      by simp
    then show False by (simp add: cache_full_def keep_mru_def obj_ex_def)
  qed
  with r have 2: "SLRU_insert cache_full ?r2
      = Inr (set_LRU cache_full 0
           \<lparr>cache_size = 3, occupied_size = 3, per_obj_overhead = 0,
             q_list = [obj_ex 9 2 False, obj_ex 2 1 False]\<rparr>)"
    by (simp add: cache_full_def keep_mru_def obj_ex_def LRU_insert_def create_cache_obj_from_request_def
        numeral_3_eq_3)
  from 1 2 show ?thesis by (simp add: cache_room_def)
qed

text \<open>
  Claim C8. When the tiers below \<open>i\<close> report Miss and tier \<open>i\<close> reports Expired,
  \<^verbatim>\<open>SLRU_check\<close> (the lookup of \<^verbatim>\<open>SLRU_get\<close>) returns Expired and the cache is unchanged,
  so nothing is promoted; and it does so whatever tiers stand above tier \<open>i\<close>: they are
  not consulted.
\<close>

theorem SLRU_check_expired_short_circuits:
  assumes "i < n_seg cache"
    and "\<forall>j<i. fst (LRU_check (LRUs cache ! j) req update_cache) = cache_ck_miss"
    and "fst (LRU_check (LRUs cache ! i) req update_cache) = cache_ck_expired"
  shows "SLRU_check cache req update_cache = Inr (cache_ck_expired, cache)
     \<and> (\<forall>upper. SLRU_check (cache\<lparr>LRUs := take (Suc i) (LRUs cache) @ upper\<rparr>) req update_cache
          = Inr (cache_ck_expired, cache\<lparr>LRUs := take (Suc i) (LRUs cache) @ upper\<rparr>))"
proof (intro conjI allI)
  show "SLRU_check cache req update_cache = Inr (cache_ck_expired, cache)"
    using assms by (rule SLRU_check_expired)
next
  fix upper
  let ?c = "cache\<lparr>LRUs := take (Suc i) (LRUs cache) @ upper\<rparr>"
  have nth: "LRUs ?c ! j = LRUs cache ! j" if "j \<le> i" for j
    using that assms(1) by (simp add: nth_append n_seg_def)
  show "SLRU_check ?c req update_cache = Inr (cache_ck_expired, ?c)"
  proof (rule SLRU_check_expired)
    show "i < n_seg ?c" using assms(1) by (simp add: n_seg_def)
    show "\<forall>j<i. fst (LRU_check (LRUs ?c ! j) req update_cache) = cache_ck_miss"
      using assms(2) nth by (metis less_imp_le)
    show "fst (LRU_check (LRUs ?c ! i) req update_cache) = cache_ck_expired"
      using assms(3) nth[of i] by simp
  qed
qed

theorem SLRU_check_expired_short_circuits_witness:
  "SLRU_check cache_ttl \<lparr>req_obj_id = 7, req_obj_size = 1\<rparr> True = Inr (cache_ck_expired, cache_ttl)
   \<and> fst (LRU_check (LRUs cache_ttl ! 2) \<lparr>req_obj_id = 7, req_obj_size = 1\<rparr> True) = cache_ck_hit
   \<and> SLRU_check (cache_ttl\<lparr>LRUs := take 2 (LRUs cache_ttl) @ []\<rparr>) \<lparr>req_obj_id = 7, req_obj_size = 1\<rparr> True
       = Inr (cache_ck_expired, cache_ttl\<lparr>LRUs := take 2 (LRUs cache_ttl) @ []\<rparr>)"
  using SLRU_check_expired_short_circuits[of 1 cache_ttl "\<lparr>req_obj_id = 7, req_obj_size = 1\<rparr>" True]
  by (simp add: cache_ttl_def obj_ex_def n_seg_def LRU_check_def)



text \<open>
  Claim C5. Let every tier be within the common capacity with consistent accounting,
  and let tier \<open>i\<close> be non-empty with the object \<open>e\<close> at its LRU end. Then \<^verbatim>\<open>SLRU_cool\<close>
  returns. Tier \<open>i\<close> has lost exactly \<open>e\<close> and has at least the size of \<open>e\<close> plus the
  overhead free, and the tiers above \<open>i\<close> are unchanged. For \<open>i = 0\<close> no other tier
  changed: \<open>e\<close> is discarded. For \<open>i > 0\<close> the new tier \<open>i - 1\<close> is the old one, cut
  down to its \<open>m\<close> most recently used objects, with \<open>e\<close> inserted: a copy of \<open>e\<close> (same
  id and size) stands at its MRU end, the tier is within its capacity, and \<open>m\<close> is the
  largest number of objects that leaves room for \<open>e\<close>, so tier \<open>i - 1\<close> was cooled
  until \<open>e\<close> fits and no further. The objects cut from tier \<open>i - 1\<close> were cooled in
  turn: the tiers below \<open>i - 1\<close> are those that \<open>demote\<close> yields for these objects.
  Altogether the cache returned is the demotion of \<open>e\<close> out of tier \<open>i\<close>.
\<close>

theorem SLRU_cool_frees_room_for_evictee:
  assumes ok: "SLRU_ok cache cap" and i: "i < n_seg cache"
    and ne: "q_list (LRUs cache ! i) \<noteq> []"
  shows "\<exists>cache'. SLRU_cool cache i = Inr cache'
     \<and> cache' = demote (set_LRU cache i
                   (keep_mru (LRUs cache ! i) (length (q_list (LRUs cache ! i)) - 1)))
                   i [last (q_list (LRUs cache ! i))]
     \<and> q_list (LRUs cache' ! i) = butlast (q_list (LRUs cache ! i))
     \<and> cache_size (LRUs cache' ! i) = cache_size (LRUs cache ! i)
     \<and> occupied_size (LRUs cache' ! i)
           + (obj_size (last (q_list (LRUs cache ! i))) + per_obj_overhead cache)
         \<le> cache_size (LRUs cache' ! i)
     \<and> (\<forall>k. i < k \<longrightarrow> LRUs cache' ! k = LRUs cache ! k)
     \<and> (i = 0 \<longrightarrow> cache' = set_LRU cache 0 (LRUs cache' ! 0))
     \<and> (0 < i \<longrightarrow>
          (\<exists>m\<le>length (q_list (LRUs cache ! (i - 1))).
             q_list (LRUs cache' ! (i - 1)) =
               create_cache_obj_from_request
                 (copy_cache_obj_to_request (last (q_list (LRUs cache ! i))))
               # take m (q_list (LRUs cache ! (i - 1)))
           \<and> LRUs cache' ! (i - 1) =
               LRU_insert (keep_mru (LRUs cache ! (i - 1)) m)
                 (copy_cache_obj_to_request (last (q_list (LRUs cache ! i))))
           \<and> occupied_size (LRUs cache' ! (i - 1)) \<le> cache_size (LRUs cache' ! (i - 1))
           \<and> (\<forall>m'. m < m' \<and> m' \<le> length (q_list (LRUs cache ! (i - 1))) \<longrightarrow>
                cache_size (LRUs cache ! (i - 1))
                  < occupied_size (keep_mru (LRUs cache ! (i - 1)) m')
                    + obj_size (last (q_list (LRUs cache ! i))) + per_obj_overhead cache)
           \<and> (\<forall>k. k < i - 1 \<longrightarrow>
                LRUs cache' ! k =
                  LRUs (demote cache (i - 1) (drop m (q_list (LRUs cache ! (i - 1))))) ! k)))"
proof -
  let ?ovh = "per_obj_overhead cache"
  let ?ti = "LRUs cache ! i"
  let ?e = "last (q_list ?ti)"
  let ?t = "keep_mru ?ti (length (q_list ?ti) - 1)"
  let ?c0 = "set_LRU cache i ?t"
  let ?c' = "demote ?c0 i [?e]"
  have ti: "tier_ok ?ovh cap ?ti" using ok i by (rule SLRU_ok_nth)
  from LRU_evict_ok[OF ti ne] obtain t where
    ev: "LRU_evict ?ti = Inr (?e, t)" and t: "tier_ok ?ovh cap t"
    and occ: "occupied_size t + (obj_size ?e + ?ovh) = occupied_size ?ti"
    by blast
  have tk: "t = ?t" using ev by (rule keep_mru_butlast)
  have ret: "SLRU_cool cache i = Inr ?c'"
    using SLRU_cool_demote(1)[of cache cap i] ok i ne by simp
  have c'i: "LRUs ?c' ! i = ?t" using i by (simp add: demote_frame LRUs_set_LRU)
  have q: "q_list (LRUs ?c' ! i) = butlast (q_list ?ti)"
    unfolding c'i by (simp add: butlast_conv_take)
  have cs: "cache_size (LRUs ?c' ! i) = cache_size ?ti" unfolding c'i by simp
  have room: "occupied_size (LRUs ?c' ! i) + (obj_size ?e + ?ovh) \<le> cache_size (LRUs ?c' ! i)"
    unfolding c'i using occ ti tk by (simp add: tier_ok_def)
  have up: "\<forall>k. i < k \<longrightarrow> LRUs ?c' ! k = LRUs cache ! k"
    by (simp add: demote_frame LRUs_set_LRU)
  have zero: "i = 0 \<longrightarrow> ?c' = set_LRU cache 0 (LRUs ?c' ! 0)"
  proof
    assume z: "i = 0"
    then have "?c' = set_LRU cache 0 ?t" by simp
    moreover from c'i z have "LRUs ?c' ! 0 = ?t" by simp
    ultimately show "?c' = set_LRU cache 0 (LRUs ?c' ! 0)" by simp
  qed
  have pos: "0 < i \<longrightarrow>
          (\<exists>m\<le>length (q_list (LRUs cache ! (i - 1))).
             q_list (LRUs ?c' ! (i - 1)) =
               create_cache_obj_from_request (copy_cache_obj_to_request ?e)
               # take m (q_list (LRUs cache ! (i - 1)))
           \<and> LRUs ?c' ! (i - 1) =
               LRU_insert (keep_mru (LRUs cache ! (i - 1)) m) (copy_cache_obj_to_request ?e)
           \<and> occupied_size (LRUs ?c' ! (i - 1)) \<le> cache_size (LRUs ?c' ! (i - 1))
           \<and> (\<forall>m'. m < m' \<and> m' \<le> length (q_list (LRUs cache ! (i - 1))) \<longrightarrow>
                cache_size (LRUs cache ! (i - 1))
                  < occupied_size (keep_mru (LRUs cache ! (i - 1)) m') + obj_size ?e + ?ovh)
           \<and> (\<forall>k. k < i - 1 \<longrightarrow>
                LRUs ?c' ! k =
                  LRUs (demote cache (i - 1) (drop m (q_list (LRUs cache ! (i - 1))))) ! k))"
  proof
    assume ipos: "0 < i"
    define j where "j = i - 1"
    have j: "i = Suc j" "j < n_seg cache" "j \<noteq> i" "j < i" using ipos i by (simp_all add: j_def)
    let ?tj = "LRUs cache ! j"
    have tj: "tier_ok ?ovh cap ?tj" using ok j(2) by (rule SLRU_ok_nth)
    have capj: "cache_size ?tj = cap" using tj by (simp add: tier_ok_def)
    have ok0: "SLRU_ok ?c0 cap" using ok t tk by (simp add: SLRU_ok_set_LRU)
    have tj0: "LRUs ?c0 ! j = ?tj" using j by (simp add: LRUs_set_LRU)
    have sz: "obj_size ?e + per_obj_overhead ?c0 \<le> cap"
      using occ ti by (simp add: tier_ok_def)
    from SLRU_cool_demote(2)[of ?c0 cap j "obj_size ?e"] ok0 j(2) sz tj0 obtain m where
      m: "m \<le> length (q_list ?tj)"
      and fit: "occupied_size (keep_mru ?tj m) + obj_size ?e + ?ovh \<le> cap"
      and mx: "\<forall>m'. m < m' \<and> m' \<le> length (q_list ?tj) \<longrightarrow>
                 cap < occupied_size (keep_mru ?tj m') + obj_size ?e + ?ovh"
      by auto
    note one = tier_receive_one[OF tj m fit mx]
    let ?T = "LRU_insert (keep_mru ?tj m) (copy_cache_obj_to_request ?e)"
    let ?D = "drop m (q_list ?tj)"
    have eq: "?c' = set_LRU (set_LRU (demote cache j ?D) i ?t) j ?T"
      using j(1,4) tj0 one by (simp add: demote_set_LRU)
    have a: "LRUs ?c' ! j = ?T" unfolding eq using j by (simp add: LRUs_set_LRU)
    have b: "\<forall>k. k < j \<longrightarrow> LRUs ?c' ! k = LRUs (demote cache j ?D) ! k"
      unfolding eq using j by (simp add: LRUs_set_LRU)
    have c: "occupied_size ?T \<le> cache_size ?T"
      using fit tj capj by (simp add: LRU_insert_def copy_cache_obj_to_request_def tier_ok_def)
    have d: "q_list ?T = create_cache_obj_from_request (copy_cache_obj_to_request ?e)
               # take m (q_list ?tj)"
      by (simp add: LRU_insert_def)
    show "\<exists>m\<le>length (q_list (LRUs cache ! (i - 1))).
             q_list (LRUs ?c' ! (i - 1)) =
               create_cache_obj_from_request (copy_cache_obj_to_request ?e)
               # take m (q_list (LRUs cache ! (i - 1)))
           \<and> LRUs ?c' ! (i - 1) =
               LRU_insert (keep_mru (LRUs cache ! (i - 1)) m) (copy_cache_obj_to_request ?e)
           \<and> occupied_size (LRUs ?c' ! (i - 1)) \<le> cache_size (LRUs ?c' ! (i - 1))
           \<and> (\<forall>m'. m < m' \<and> m' \<le> length (q_list (LRUs cache ! (i - 1))) \<longrightarrow>
                cache_size (LRUs cache ! (i - 1))
                  < occupied_size (keep_mru (LRUs cache ! (i - 1)) m') + obj_size ?e + ?ovh)
           \<and> (\<forall>k. k < i - 1 \<longrightarrow>
                LRUs ?c' ! k =
                  LRUs (demote cache (i - 1) (drop m (q_list (LRUs cache ! (i - 1))))) ! k)"
      unfolding j_def[symmetric]
      using m a b c d mx capj by (intro exI[of _ m]) simp
  qed
  from ret q cs room up zero pos show ?thesis by blast
qed

theorem SLRU_cool_frees_room_for_evictee_witness:
  "SLRU_ok cache_hot 2 \<and> 2 < n_seg cache_hot \<and> q_list (LRUs cache_hot ! 2) \<noteq> []
   \<and> SLRU_cool cache_hot 2 =
     Inr (cache_hot\<lparr>LRUs :=
       [\<lparr>cache_size = 2, occupied_size = 2, per_obj_overhead = 0,
         q_list = [create_cache_obj_from_request \<lparr>req_obj_id = 3, req_obj_size = 1\<rparr>,
                   create_cache_obj_from_request \<lparr>req_obj_id = 2, req_obj_size = 1\<rparr>]\<rparr>,
        \<lparr>cache_size = 2, occupied_size = 2, per_obj_overhead = 0,
         q_list = [create_cache_obj_from_request \<lparr>req_obj_id = 5, req_obj_size = 1\<rparr>,
                   create_cache_obj_from_request \<lparr>req_obj_id = 4, req_obj_size = 1\<rparr>]\<rparr>,
        \<lparr>cache_size = 2, occupied_size = 1, per_obj_overhead = 0,
         q_list = [create_cache_obj_from_request \<lparr>req_obj_id = 6, req_obj_size = 1\<rparr>]\<rparr>]\<rparr>)
   \<and> SLRU_ok cache_full 3 \<and> 1 < n_seg cache_full \<and> q_list (LRUs cache_full ! 1) \<noteq> []
   \<and> SLRU_cool cache_full 1 =
     Inr (cache_full\<lparr>LRUs := [\<lparr>cache_size = 3, occupied_size = 3, per_obj_overhead = 0,
                                q_list = [obj_ex 3 3 False]\<rparr>,
                              \<lparr>cache_size = 3, occupied_size = 0, per_obj_overhead = 0,
                                q_list = []\<rparr>]\<rparr>)"
proof -
  have ok: "SLRU_ok cache_hot 2"
    by (simp add: SLRU_ok_def tier_ok_def cache_hot_def create_cache_obj_from_request_def)
  have i: "2 < n_seg cache_hot" by (simp add: n_seg_def cache_hot_def)
  have ne: "q_list (LRUs cache_hot ! 2) \<noteq> []" by (simp add: cache_hot_def)
  from SLRU_cool_frees_room_for_evictee[OF ok i ne]
  have "SLRU_cool cache_hot 2 =
      Inr (demote (set_LRU cache_hot 2
             (keep_mru (LRUs cache_hot ! 2) (length (q_list (LRUs cache_hot ! 2)) - 1)))
             2 [last (q_list (LRUs cache_hot ! 2))])"
    by blast
  also have "demote (set_LRU cache_hot 2
             (keep_mru (LRUs cache_hot ! 2) (length (q_list (LRUs cache_hot ! 2)) - 1)))
             2 [last (q_list (LRUs cache_hot ! 2))] =
      cache_hot\<lparr>LRUs :=
       [\<lparr>cache_size = 2, occupied_size = 2, per_obj_overhead = 0,
         q_list = [create_cache_obj_from_request \<lparr>req_obj_id = 3, req_obj_size = 1\<rparr>,
                   create_cache_obj_from_request \<lparr>req_obj_id = 2, req_obj_size = 1\<rparr>]\<rparr>,
        \<lparr>cache_size = 2, occupied_size = 2, per_obj_overhead = 0,
         q_list = [create_cache_obj_from_request \<lparr>req_obj_id = 5, req_obj_size = 1\<rparr>,
                   create_cache_obj_from_request \<lparr>req_obj_id = 4, req_obj_size = 1\<rparr>]\<rparr>,
        \<lparr>cache_size = 2, occupied_size = 1, per_obj_overhead = 0,
         q_list = [create_cache_obj_from_request \<lparr>req_obj_id = 6, req_obj_size = 1\<rparr>]\<rparr>]\<rparr>"
    by (simp add: numeral_2_eq_2 cache_hot_def set_LRU_def keep_mru_def tier_receive_def
        tier_overflow_def tier_weight_def demoted_obj_def create_cache_obj_from_request_def
        copy_cache_obj_to_request_def)
  finally have hot: "SLRU_cool cache_hot 2 =
      Inr (cache_hot\<lparr>LRUs :=
       [\<lparr>cache_size = 2, occupied_size = 2, per_obj_overhead = 0,
         q_list = [create_cache_obj_from_request \<lparr>req_obj_id = 3, req_obj_size = 1\<rparr>,
                   create_cache_obj_from_request \<lparr>req_obj_id = 2, req_obj_size = 1\<rparr>]\<rparr>,
        \<lparr>cache_size = 2, occupied_size = 2, per_obj_overhead = 0,
         q_list = [create_cache_obj_from_request \<lparr>req_obj_id = 5, req_obj_size = 1\<rparr>,
                   create_cache_obj_from_request \<lparr>req_obj_id = 4, req_obj_size = 1\<rparr>]\<rparr>,
        \<lparr>cache_size = 2, occupied_size = 1, per_obj_overhead = 0,
         q_list = [create_cache_obj_from_request \<lparr>req_obj_id = 6, req_obj_size = 1\<rparr>]\<rparr>]\<rparr>)" .
  have ok': "SLRU_ok cache_full 3"
    by (simp add: SLRU_ok_def tier_ok_def cache_full_def obj_ex_def)
  have i': "1 < n_seg cache_full" by (simp add: n_seg_def cache_full_def)
  have ne': "q_list (LRUs cache_full ! 1) \<noteq> []" by (simp add: cache_full_def)
  from SLRU_cool_frees_room_for_evictee[OF ok' i' ne']
  have "SLRU_cool cache_full 1 =
      Inr (demote (set_LRU cache_full 1
             (keep_mru (LRUs cache_full ! 1) (length (q_list (LRUs cache_full ! 1)) - 1)))
             1 [last (q_list (LRUs cache_full ! 1))])"
    by blast
  also have "demote (set_LRU cache_full 1
             (keep_mru (LRUs cache_full ! 1) (length (q_list (LRUs cache_full ! 1)) - 1)))
             1 [last (q_list (LRUs cache_full ! 1))] =
      cache_full\<lparr>LRUs := [\<lparr>cache_size = 3, occupied_size = 3, per_obj_overhead = 0,
                                q_list = [obj_ex 3 3 False]\<rparr>,
                              \<lparr>cache_size = 3, occupied_size = 0, per_obj_overhead = 0,
                                q_list = []\<rparr>]\<rparr>"
    by (simp add: cache_full_def obj_ex_def set_LRU_def keep_mru_def tier_receive_def
        tier_overflow_def tier_weight_def demoted_obj_def create_cache_obj_from_request_def
        copy_cache_obj_to_request_def)
  finally have full: "SLRU_cool cache_full 1 =
      Inr (cache_full\<lparr>LRUs := [\<lparr>cache_size = 3, occupied_size = 3, per_obj_overhead = 0,
                                q_list = [obj_ex 3 3 False]\<rparr>,
                              \<lparr>cache_size = 3, occupied_size = 0, per_obj_overhead = 0,
                                q_list = []\<rparr>]\<rparr>)" .
  from hot full ok i ne ok' i' ne' show ?thesis by simp
qed

end
